theory Spec2Isabelle
  imports Main
begin

section \<open>Data model of \<open>src/index.ts\<close>\<close>

text \<open>
  A configuration value is a JavaScript number, an IEEE double. The constructor only asks
  whether it is finite, so a number is either a finite value or one of the three
  non-finite ones. A finite time (a clock reading, the interval, a recorded timestamp, a
  delay) is an integer number of units. With the millisecond as unit this covers
  \<open>Date.now()\<close> and every integer interval; every finite double being an integer
  multiple of 2 to the power -1074, a finer power-of-two unit covers a fractional interval.
  The limit is only ever compared with integer counts, so it is taken at an integer (a
  fractional limit acts as the next integer above it).
\<close>

datatype number = Finite int | PosInfinity | NegInfinity | NaN

fun isFinite :: "number \<Rightarrow> bool" where
  "isFinite (Finite n) = True"
| "isFinite PosInfinity = False"
| "isFinite NegInfinity = False"
| "isFinite NaN = False"

datatype type_error = TypeError string

text \<open>
  The variables that one call of \<open>pThrottle\<close> closes over: the destructured options,
  \<open>queue\<close> (a \<open>Map\<close> from timer handle to the \<open>reject\<close> of a promise, in insertion
  order), \<open>currentTick\<close>, \<open>activeCount\<close> and \<open>strictTicks\<close>. An entry of
  \<open>strictTicks\<close> is \<open>None\<close> when it is the JavaScript \<open>NaN\<close>, which
  \<open>strictTicks.shift()! + interval\<close> produces on an empty array.
\<close>

record closure =
  limit :: int
  interval :: int
  strict :: bool
  queue :: "(nat \<times> nat) list"
  currentTick :: int
  activeCount :: int
  strictTicks :: "int option list"

text \<open>The closure as \<open>pThrottle\<close> leaves it before returning (lines 67 to 112).\<close>

definition newClosure :: "int \<Rightarrow> int \<Rightarrow> bool option \<Rightarrow> closure" where
  "newClosure l i s =
     \<lparr>limit = l, interval = i, strict = (s = Some True), queue = [],
      currentTick = 0, activeCount = 0, strictTicks = []\<rparr>"

section \<open>Double arithmetic on times\<close>

text \<open>
  A double carries 53 significant bits. \<open>ulp n\<close> is the spacing of the doubles around
  the magnitude \<open>n\<close>: 1 below \<open>2 ^ 53\<close> and doubling with every further bit.
  \<open>roundEven\<close> takes a magnitude to the nearest multiple of that spacing, a tie going
  to the even multiple, and \<open>fl\<close> does so for a signed value: it is what \<open>+\<close> and
  \<open>-\<close> of two doubles return for the exact result \<open>x\<close>. Overflow to an infinity,
  beyond \<open>2 ^ 1024\<close>, is left out.
\<close>

function ulp :: "nat \<Rightarrow> nat" where
  "ulp n = (if n < 2 ^ 53 then 1 else 2 * ulp (n div 2))"
  by pat_completeness auto
termination
  by (relation "measure id") auto

declare ulp.simps [simp del]

definition roundEven :: "nat \<Rightarrow> nat" where
  "roundEven n =
     (let u = ulp n; q = n div u; r = n mod u
      in if 2 * r < u then q * u
         else if u < 2 * r then (q + 1) * u
         else if even q then q * u
         else (q + 1) * u)"

definition fl :: "int \<Rightarrow> int" where
  "fl x = sgn x * int (roundEven (nat \<bar>x\<bar>))"

section \<open>The delay calculators\<close>

text \<open>
  \<open>windowedDelay\<close> (lines 72 to 89); \<open>now\<close> is the value read from \<open>Date.now()\<close>.
  Its sums and differences are written exactly, which is what the doubles give while the
  values stay below \<open>2 ^ 53\<close> units in magnitude.
\<close>

definition windowedDelay :: "int \<Rightarrow> closure \<Rightarrow> int \<times> closure" where
  "windowedDelay now c =
     (if now - currentTick c > interval c
      then (0, c\<lparr>activeCount := 1, currentTick := now\<rparr>)
      else
        (let c' = (if activeCount c < limit c
                   then c\<lparr>activeCount := activeCount c + 1\<rparr>
                   else c\<lparr>currentTick := currentTick c + interval c, activeCount := 1\<rparr>)
         in (currentTick c' - now, c')))"

text \<open>
  \<open>strictDelay\<close> (lines 93 to 110), with the sum of line 101 and the difference of
  line 109 rounded as the doubles round them. The delay is \<open>None\<close> when it is \<open>NaN\<close>:
  \<open>shift()\<close> of an empty array is \<open>undefined\<close>, \<open>undefined + interval\<close> is \<open>NaN\<close>,
  \<open>now >= NaN\<close> is false, so \<open>NaN\<close> is pushed and \<open>NaN - now\<close> returned.
\<close>

definition shift :: "int option list \<Rightarrow> int option \<times> int option list" where
  "shift ticks = (case ticks of [] \<Rightarrow> (None, []) | t # rest \<Rightarrow> (t, rest))"

definition strictDelay :: "int \<Rightarrow> closure \<Rightarrow> int option \<times> closure" where
  "strictDelay now c =
     (if int (length (strictTicks c)) < limit c
      then (Some 0, c\<lparr>strictTicks := strictTicks c @ [Some now]\<rparr>)
      else
        (let (oldest, rest) = shift (strictTicks c) in
         case map_option (\<lambda>t. fl (t + interval c)) oldest of
           None \<Rightarrow> (None, c\<lparr>strictTicks := rest @ [None]\<rparr>)
         | Some earliestTime \<Rightarrow>
             if now \<ge> earliestTime
             then (Some 0, c\<lparr>strictTicks := rest @ [Some now]\<rparr>)
             else (Some (fl (earliestTime - now)),
                   c\<lparr>strictTicks := rest @ [Some earliestTime]\<rparr>)))"

text \<open>\<open>const getDelay = strict ? strictDelay : windowedDelay\<close> (line 112).\<close>

definition getDelay :: "int \<Rightarrow> closure \<Rightarrow> int option \<times> closure" where
  "getDelay now c =
     (if strict c then strictDelay now c
      else (let (d, c') = windowedDelay now c in (Some d, c')))"

text \<open>
  Successive calls of a delay calculator at the clock readings \<open>nows\<close>.
  \<open>strictCalls\<close> collects, for each call, the delay it returns and the value it pushes
  onto \<open>strictTicks\<close> (the effective timestamp of that call); \<open>windowedCalls\<close>
  collects the delays.
\<close>

fun strictCalls :: "int list \<Rightarrow> closure \<Rightarrow> (int option \<times> int option) list" where
  "strictCalls [] c = []"
| "strictCalls (now # nows) c =
     (let (d, c') = strictDelay now c in (d, last (strictTicks c')) # strictCalls nows c')"

fun windowedCalls :: "int list \<Rightarrow> closure \<Rightarrow> int list \<times> closure" where
  "windowedCalls [] c = ([], c)"
| "windowedCalls (now # nows) c =
     (let (d, c') = windowedDelay now c; (ds, c'') = windowedCalls nows c' in (d # ds, c''))"

section \<open>Promises, timers and the store\<close>

text \<open>
  What \<open>function_.apply(this, args)\<close> can do: return a value (or a promise that fulfils
  with it), return a promise that rejects, or throw synchronously.
\<close>

datatype 'v outcome = Returns 'v | ReturnsRejected 'v | Throws 'v

datatype 'v reason = AbortError | Raised 'v

datatype 'v promise = Pending | Fulfilled 'v | Rejected "'v reason"

text \<open>
  A scheduled \<open>execute\<close> (lines 131 to 137): the delay handed to \<open>setTimeout\<close> and what
  the callback closes over, namely the promise it resolves, \<open>function_\<close>, \<open>args\<close>
  and the closure whose \<open>queue\<close> it deletes from.
\<close>

record 'v timeout =
  t_delay :: "int option"
  t_resolve :: nat
  t_callee :: "'v list \<Rightarrow> 'v outcome"
  t_args :: "'v list"
  t_env :: nat

text \<open>
  The store. Closures live at addresses, so that two wrappers can hold the same one;
  addresses from \<open>nextClosure\<close> on are not allocated and no wrapper refers to them.
  \<open>timers\<close> are the timeouts that are set and have neither fired nor been cleared,
  \<open>uncaught\<close> the exceptions that left a timer callback.
\<close>

record 'v world =
  closures :: "nat \<Rightarrow> closure"
  nextClosure :: nat
  timers :: "nat \<rightharpoonup> 'v timeout"
  nextTimer :: nat
  promises :: "nat \<rightharpoonup> 'v promise"
  nextPromise :: nat
  uncaught :: "'v list"

definition emptyWorld :: "'v world" where
  "emptyWorld =
     \<lparr>closures = (\<lambda>_. newClosure 0 0 None), nextClosure = 0, timers = Map.empty,
      nextTimer = 0, promises = Map.empty, nextPromise = 0, uncaught = []\<rparr>"

text \<open>
  The wrapper \<open>throttled\<close>: the closure it was created in (\<open>env\<close>), the wrapped
  \<open>function_\<close> (\<open>callee\<close>) and its own \<open>isEnabled\<close> property.
\<close>

record 'v wrapper =
  env :: nat
  callee :: "'v list \<Rightarrow> 'v outcome"
  isEnabled :: bool

subsection \<open>\<open>Map\<close> and promise primitives\<close>

definition mapSet :: "nat \<Rightarrow> nat \<Rightarrow> (nat \<times> nat) list \<Rightarrow> (nat \<times> nat) list" where
  "mapSet k v q =
     (if k \<in> fst ` set q then map (\<lambda>(k', v'). if k' = k then (k, v) else (k', v')) q
      else q @ [(k, v)])"

definition mapDelete :: "nat \<Rightarrow> (nat \<times> nat) list \<Rightarrow> (nat \<times> nat) list" where
  "mapDelete k q = filter (\<lambda>(k', v'). k' \<noteq> k) q"

text \<open>\<open>resolve\<close> and \<open>reject\<close> act on a pending promise only.\<close>

definition settle :: "nat \<Rightarrow> 'v promise \<Rightarrow> (nat \<rightharpoonup> 'v promise) \<Rightarrow> (nat \<rightharpoonup> 'v promise)" where
  "settle p s ps = (case ps p of Some Pending \<Rightarrow> ps(p \<mapsto> s) | _ \<Rightarrow> ps)"

text \<open>
  The state a promise takes from what the callee did. \<open>resolve(...)\<close> in \<open>execute\<close>
  only ever sees the first two cases; the third is the \<open>async\<close> arrow function of the
  disabled path, whose promise rejects with what its body threw.
\<close>

fun resolution :: "'v outcome \<Rightarrow> 'v promise" where
  "resolution (Returns v) = Fulfilled v"
| "resolution (ReturnsRejected e) = Rejected (Raised e)"
| "resolution (Throws e) = Rejected (Raised e)"

section \<open>Construction\<close>

fun valueOf :: "number \<Rightarrow> int" where
  "valueOf (Finite n) = n"

text \<open>
  \<open>pThrottle\<close> (lines 59 to 112): the two finiteness checks, then a fresh closure. The
  result on success is the address of that closure, which the returned function keeps.
\<close>

definition pThrottle :: "number \<Rightarrow> number \<Rightarrow> bool option \<Rightarrow> 'v world \<Rightarrow> type_error + (nat \<times> 'v world)" where
  "pThrottle limit0 interval0 strict0 w =
     (if \<not> isFinite limit0 then Inl (TypeError ''Expected `limit` to be a finite number'')
      else if \<not> isFinite interval0
      then Inl (TypeError ''Expected `interval` to be a finite number'')
      else Inr (nextClosure w,
                w\<lparr>closures := (closures w)
                     (nextClosure w := newClosure (valueOf limit0) (valueOf interval0) strict0),
                  nextClosure := Suc (nextClosure w)\<rparr>))"

text \<open>
  The function \<open>pThrottle\<close> returns (lines 114 to 162), applied to \<open>function_\<close>:
  a wrapper over the closure at \<open>a\<close>, with \<open>isEnabled = true\<close>.
\<close>

definition throttle :: "nat \<Rightarrow> ('v list \<Rightarrow> 'v outcome) \<Rightarrow> 'v wrapper" where
  "throttle a f = \<lparr>env = a, callee = f, isEnabled = True\<rparr>"

section \<open>The wrapper\<close>

text \<open>
  \<open>throttled\<close> (lines 121 to 141) returns the promise of the call. Disabled, the
  \<open>async\<close> arrow function runs \<open>function_\<close> at once and its promise takes the outcome,
  a synchronous exception included. Enabled, the executor reads the delay, sets the timer
  and stores \<open>reject\<close> in \<open>queue\<close> under the timer's handle.
\<close>

definition throttled :: "'v wrapper \<Rightarrow> 'v list \<Rightarrow> int \<Rightarrow> 'v world \<Rightarrow> nat \<times> 'v world" where
  "throttled t args now w =
     (if \<not> isEnabled t
      then (nextPromise w,
            w\<lparr>promises := (promises w)(nextPromise w \<mapsto> resolution (callee t args)),
              nextPromise := Suc (nextPromise w)\<rparr>)
      else
        (let (d, c) = getDelay now (closures w (env t));
             h = nextTimer w;
             p = nextPromise w
         in (p,
             w\<lparr>closures := (closures w)(env t := c\<lparr>queue := mapSet h p (queue c)\<rparr>),
               timers := (timers w)
                 (h \<mapsto> \<lparr>t_delay = d, t_resolve = p, t_callee = callee t, t_args = args,
                         t_env = env t\<rparr>),
               nextTimer := Suc h,
               promises := (promises w)(p \<mapsto> Pending),
               nextPromise := Suc p\<rparr>)))"

text \<open>
  \<open>execute\<close> (lines 131 to 135), run when the timer \<open>h\<close> fires. When \<open>function_\<close>
  throws, the exception leaves the callback before \<open>resolve\<close> and \<open>queue.delete\<close>.
\<close>

definition execute :: "nat \<Rightarrow> 'v world \<Rightarrow> 'v world" where
  "execute h w =
     (case timers w h of
        None \<Rightarrow> w
      | Some e \<Rightarrow>
          (let w1 = w\<lparr>timers := (timers w)(h := None)\<rparr> in
           case t_callee e (t_args e) of
             Throws x \<Rightarrow> w1\<lparr>uncaught := uncaught w1 @ [x]\<rparr>
           | r \<Rightarrow>
               w1\<lparr>promises := settle (t_resolve e) (resolution r) (promises w1),
                  closures := (closures w1)
                    (t_env e := (closures w1 (t_env e))
                       \<lparr>queue := mapDelete h (queue (closures w1 (t_env e)))\<rparr>)\<rparr>))"

text \<open>
  \<open>throttled.abort\<close> (lines 143 to 151). The loop visits the entries of \<open>queue\<close>:
  \<open>clearTimeout\<close> of the key, then the stored \<open>reject\<close> with a new \<open>AbortError\<close>.
\<close>

definition abortEntry :: "'v world \<Rightarrow> nat \<times> nat \<Rightarrow> 'v world" where
  "abortEntry w e =
     w\<lparr>timers := (timers w)(fst e := None),
       promises := settle (snd e) (Rejected AbortError) (promises w)\<rparr>"

definition abort :: "'v wrapper \<Rightarrow> 'v world \<Rightarrow> 'v world" where
  "abort t w =
     (let w1 = foldl abortEntry w (queue (closures w (env t)))
      in w1\<lparr>closures := (closures w1)
              (env t := (closures w1 (env t))\<lparr>queue := [], strictTicks := []\<rparr>)\<rparr>)"

text \<open>The getter \<open>queueSize\<close> (lines 155 to 159).\<close>

definition queueSize :: "'v wrapper \<Rightarrow> 'v world \<Rightarrow> nat" where
  "queueSize t w = length (queue (closures w (env t)))"

text \<open>
  The worlds a program can reach: constructions, calls through wrappers of allocated
  closures, timers firing, and aborts.
\<close>

inductive reachable :: "'v world \<Rightarrow> bool" where
  reach_init: "reachable emptyWorld"
| reach_pThrottle: "reachable w \<Longrightarrow> pThrottle l i s w = Inr (a, w') \<Longrightarrow> reachable w'"
| reach_throttled: "reachable w \<Longrightarrow> env t < nextClosure w \<Longrightarrow> reachable (snd (throttled t args now w))"
| reach_execute: "reachable w \<Longrightarrow> reachable (execute h w)"
| reach_abort: "reachable w \<Longrightarrow> env t < nextClosure w \<Longrightarrow> reachable (abort t w)"

text \<open>
  Shorthands for stating runs: a construction whose result is kept as the new world
  (the closure is at the address that was \<open>nextClosure\<close>), the world right after one
  construction in the empty world (its closure is at address 0), and successive calls
  without arguments through one wrapper at the clock readings \<open>nows\<close>.
\<close>

definition construct :: "number \<Rightarrow> number \<Rightarrow> bool option \<Rightarrow> 'v world \<Rightarrow> 'v world" where
  "construct l i s w = (case pThrottle l i s w of Inr (a, w') \<Rightarrow> w' | Inl e \<Rightarrow> w)"

definition fresh :: "number \<Rightarrow> number \<Rightarrow> bool option \<Rightarrow> 'v world" where
  "fresh l i s = construct l i s emptyWorld"

fun calls :: "'v wrapper \<Rightarrow> int list \<Rightarrow> 'v world \<Rightarrow> 'v world" where
  "calls t [] w = w"
| "calls t (now # nows) w = calls t nows (snd (throttled t [] now w))"

section \<open>The windowed calculator as the specification words it\<close>

text \<open>
  The three branches in the specification's words: a new window gives delay 0, admission
  into the current window gives delay 0, a full window moves \<open>windowStart\<close> on by
  \<open>interval\<close> and gives \<open>windowStart - now\<close>.
\<close>

definition spec_windowedDelay :: "int \<Rightarrow> closure \<Rightarrow> int \<times> closure" where
  "spec_windowedDelay now c =
     (if now - currentTick c > interval c
      then (0, c\<lparr>currentTick := now, activeCount := 1\<rparr>)
      else if activeCount c < limit c
      then (0, c\<lparr>activeCount := activeCount c + 1\<rparr>)
      else (currentTick c + interval c - now,
            c\<lparr>currentTick := currentTick c + interval c, activeCount := 1\<rparr>))"

section \<open>Predicates used in the statements\<close>

text \<open>
  \<open>spaced L I h\<close>: every entry of \<open>h\<close> is at least \<open>I\<close> later than the entry \<open>L\<close>
  positions before it. \<open>strictInv c h\<close> ties \<open>strictTicks\<close> to the list \<open>h\<close> of all
  timestamps recorded so far: \<open>strictTicks\<close> holds the last \<open>limit\<close> of them.
\<close>

definition spaced :: "nat \<Rightarrow> int \<Rightarrow> int list \<Rightarrow> bool" where
  "spaced L I h = (\<forall>k. k + L < length h \<longrightarrow> h ! k + I \<le> h ! (k + L))"

definition strictInv :: "closure \<Rightarrow> int list \<Rightarrow> bool" where
  "strictInv c h =
     (0 < limit c \<and> spaced (nat (limit c)) (interval c) h \<and>
      (\<exists>pre ts. h = pre @ ts \<and> strictTicks c = map Some ts \<and> int (length ts) \<le> limit c \<and>
         (int (length ts) < limit c \<longrightarrow> pre = [])))"

text \<open>
  Two invariants of reachable worlds. \<open>ticksDefined\<close>: where the limit is positive, no
  entry of \<open>strictTicks\<close> is \<open>NaN\<close>. \<open>queueKeysFresh\<close>: the keys of every \<open>queue\<close>
  are distinct handles that \<open>setTimeout\<close> has already handed out.
\<close>

definition ticksDefined :: "'v world \<Rightarrow> bool" where
  "ticksDefined w = (\<forall>a. 0 < limit (closures w a) \<longrightarrow> None \<notin> set (strictTicks (closures w a)))"

definition queueKeysFresh :: "'v world \<Rightarrow> bool" where
  "queueKeysFresh w =
     (\<forall>a. (\<forall>e \<in> set (queue (closures w a)). fst e < nextTimer w) \<and>
          distinct (map fst (queue (closures w a))))"

section \<open>Where the rounding is exact\<close>

lemma ulp_pos: "0 < ulp n"
  by (induction n rule: ulp.induct) (subst ulp.simps, simp)

lemma ulp_small: "n < 2 ^ 53 \<Longrightarrow> ulp n = 1"
  by (subst ulp.simps) simp

lemma roundEven_exact: "n \<le> 2 ^ 53 \<Longrightarrow> roundEven n = n"
proof (cases "n < 2 ^ 53")
  case True
  then show ?thesis by (simp add: roundEven_def ulp_small)
next
  case False
  assume "n \<le> 2 ^ 53"
  with False have n: "n = 2 ^ 53" by simp
  have "ulp (2 ^ 53) = 2"
    by (subst ulp.simps) (simp add: ulp_small)
  then show ?thesis by (simp add: roundEven_def n)
qed

lemma fl_exact: "\<bar>x\<bar> \<le> 2 ^ 53 \<Longrightarrow> fl x = x"
proof -
  assume a: "\<bar>x\<bar> \<le> 2 ^ 53"
  then have "nat \<bar>x\<bar> \<le> 2 ^ 53" by (simp add: nat_le_iff)
  then have "roundEven (nat \<bar>x\<bar>) = nat \<bar>x\<bar>" by (rule roundEven_exact)
  then show ?thesis by (simp add: fl_def sgn_if)
qed

lemma fl_nonneg: "0 \<le> x \<Longrightarrow> 0 \<le> fl x"
  by (simp add: fl_def sgn_if)

text \<open>Two sums that are rounded: a tie above \<open>2 ^ 53\<close>, and a sum of 85 bits.\<close>

lemma fl_tie: "fl 9007199254741993 = 9007199254741992"
  by (simp add: fl_def roundEven_def ulp.simps)

lemma fl_third: "fl 29906716281371262014805333 = 29906716281371260583149568"
  by (simp add: fl_def roundEven_def ulp.simps)

section \<open>Unfolding the model on concrete runs\<close>

lemmas ev = pThrottle_def throttled_def getDelay_def windowedDelay_def strictDelay_def shift_def
  mapSet_def mapDelete_def settle_def execute_def abort_def abortEntry_def queueSize_def
  throttle_def emptyWorld_def newClosure_def construct_def fresh_def Let_def fl_exact

section \<open>Strict mode enforces the limit while its sums are exact\<close>

lemma spaced_mult:
  assumes "spaced L I h" "0 \<le> I"
  shows "k + m * L < length h \<Longrightarrow> h ! k + int m * I \<le> h ! (k + m * L)"
proof (induction m)
  case 0 then show ?case by simp
next
  case (Suc m)
  then have lt: "k + m * L < length h" by simp
  from Suc.prems have "(k + m * L) + L < length h" by (simp add: add.commute add.left_commute)
  with assms(1) have "h ! (k + m * L) + I \<le> h ! ((k + m * L) + L)"
    unfolding spaced_def by blast
  moreover have "(k + m * L) + L = k + Suc m * L" by simp
  ultimately show ?case using Suc.IH[OF lt] by (simp add: algebra_simps)
qed

lemma spaced_window:
  assumes sp: "spaced L I h" and L: "0 < L" and I: "0 < I"
  shows "length (filter (\<lambda>t. a \<le> t \<and> t < a + I) h) \<le> L"
proof -
  let ?S = "{i. i < length h \<and> (a \<le> h ! i \<and> h ! i < a + I)}"
  have inj: "inj_on (\<lambda>i. i mod L) ?S"
  proof (rule inj_onI)
    fix i j assume i: "i \<in> ?S" and j: "j \<in> ?S" and eq: "i mod L = j mod L"
    have aux: False if lt: "x < y" and x: "x \<in> ?S" and y: "y \<in> ?S" and e: "x mod L = y mod L" for x y
    proof -
      from lt have "x \<le> y" by simp
      from mod_eq_dvd_iff_nat[OF this, of L] e have "L dvd y - x" by simp
      then obtain m where "y - x = L * m" ..
      with lt have m: "y = x + m * L" by (simp add: mult.commute)
      with lt have m0: "0 < m" by (cases m) auto
      from y m have "x + m * L < length h" by simp
      from spaced_mult[OF sp _ this] I have "h ! x + int m * I \<le> h ! y" using m by simp
      moreover have "I \<le> int m * I" using m0 I by simp
      ultimately show False using x y by simp
    qed
    show "i = j" using aux[of i j] aux[of j i] i j eq by (metis linorder_neqE_nat)
  qed
  have "card ?S = card ((\<lambda>i. i mod L) ` ?S)" using inj by (simp add: card_image)
  also have "\<dots> \<le> card {0..<L}"
    by (rule card_mono) (use L in auto)
  finally show ?thesis by (simp add: length_filter_conv_card)
qed


lemma spaced_snoc:
  assumes "spaced L I h" "0 < L" "L \<le> length h \<Longrightarrow> h ! (length h - L) + I \<le> v"
  shows "spaced L I (h @ [v])"
  unfolding spaced_def
proof (intro allI impI)
  fix k assume k: "k + L < length (h @ [v])"
  show "(h @ [v]) ! k + I \<le> (h @ [v]) ! (k + L)"
  proof (cases "k + L < length h")
    case True
    with assms(1) show ?thesis by (simp add: spaced_def nth_append)
  next
    case False
    with k have e: "k + L = length h" by simp
    then have "L \<le> length h" "k = length h - L" by simp_all
    moreover from e assms(2) have "k < length h" by simp
    ultimately show ?thesis using assms(3) e by (simp add: nth_append)
  qed
qed

lemma strictDelay_step:
  assumes inv: "strictInv c h"
    and now: "0 \<le> now" "now \<le> B"
    and h: "\<forall>t \<in> set h. 0 \<le> t \<and> t \<le> B"
    and B: "B + interval c \<le> 2 ^ 53" and I: "0 < interval c"
  shows "\<exists>v. fst (strictDelay now c) = Some (v - now) \<and>
             last (strictTicks (snd (strictDelay now c))) = Some v \<and>
             strictInv (snd (strictDelay now c)) (h @ [v]) \<and>
             limit (snd (strictDelay now c)) = limit c \<and>
             interval (snd (strictDelay now c)) = interval c \<and>
             now \<le> v \<and> v \<le> B + interval c"
proof -
  from inv obtain pre ts where L: "0 < limit c"
    and sp: "spaced (nat (limit c)) (interval c) h"
    and hh: "h = pre @ ts" and t: "strictTicks c = map Some ts"
    and le: "int (length ts) \<le> limit c" and pre: "int (length ts) < limit c \<longrightarrow> pre = []"
    unfolding strictInv_def by blast
  show ?thesis
  proof (cases "int (length ts) < limit c")
    case True
    with pre hh have hts: "h = ts" by simp
    have sp': "spaced (nat (limit c)) (interval c) (h @ [now])"
      by (rule spaced_snoc[OF sp]) (use L True hts in simp_all)
    have "strictInv (c\<lparr>strictTicks := strictTicks c @ [Some now]\<rparr>) (h @ [now])"
      unfolding strictInv_def using L sp' True hts t
      by (intro conjI exI[of _ "[]"] exI[of _ "ts @ [now]"]) simp_all
    with True t now I show ?thesis by (simp add: strictDelay_def)
  next
    case False
    with le have len: "int (length ts) = limit c" by simp
    with L obtain t0 rest where ts: "ts = t0 # rest" by (cases ts) auto
    from h hh ts have t0: "0 \<le> t0" "t0 \<le> B" by simp_all
    with B I have ex1: "fl (t0 + interval c) = t0 + interval c"
      by (intro fl_exact) simp
    define v where "v = (if now \<ge> t0 + interval c then now else t0 + interval c)"
    have ex2: "\<not> now \<ge> t0 + interval c \<Longrightarrow> fl (t0 + interval c - now) = t0 + interval c - now"
      using t0 now B by (intro fl_exact) simp
    have lenh: "length h - nat (limit c) = length pre" using hh len by simp
    have old: "h ! (length h - nat (limit c)) = t0" unfolding lenh by (simp add: hh ts)
    have sp': "spaced (nat (limit c)) (interval c) (h @ [v])"
      by (rule spaced_snoc[OF sp]) (use L in \<open>simp_all add: old v_def\<close>)
    have "strictInv (c\<lparr>strictTicks := map Some rest @ [Some v]\<rparr>) (h @ [v])"
      unfolding strictInv_def using L sp' hh ts len
      by (intro conjI exI[of _ "pre @ [t0]"] exI[of _ "rest @ [v]"]) simp_all
    moreover have "now \<le> v" "v \<le> B + interval c" using t0 now I by (simp_all add: v_def)
    ultimately show ?thesis using False t ts len ex2
      by (auto simp: strictDelay_def shift_def v_def ex1)
  qed
qed

lemma strictCalls_spaced:
  "strictInv c h \<Longrightarrow> 0 < interval c \<Longrightarrow> \<forall>t \<in> set h. 0 \<le> t \<and> t \<le> B \<Longrightarrow>
   \<forall>now \<in> set nows. 0 \<le> now \<and> now \<le> B \<Longrightarrow>
   B + int (length nows) * interval c \<le> 2 ^ 53 \<Longrightarrow>
   \<exists>vs. strictCalls nows c = map (\<lambda>(now, v). (Some (v - now), Some v)) (zip nows vs) \<and>
        length vs = length nows \<and> (\<forall>k < length vs. nows ! k \<le> vs ! k) \<and>
        spaced (nat (limit c)) (interval c) (h @ vs)"
proof (induction nows arbitrary: c h B)
  case Nil
  then show ?case by (simp add: strictInv_def)
next
  case (Cons now nows)
  let ?c = "snd (strictDelay now c)"
  from Cons.prems(4) have now: "0 \<le> now" "now \<le> B" by simp_all
  from Cons.prems(2,5) have "B + interval c \<le> B + int (length (now # nows)) * interval c"
    by (simp add: algebra_simps)
  with Cons.prems(5) have B: "B + interval c \<le> 2 ^ 53" by linarith
  from strictDelay_step[OF Cons.prems(1) now Cons.prems(3) B Cons.prems(2)] obtain v where
    d: "fst (strictDelay now c) = Some (v - now)"
    and v: "last (strictTicks ?c) = Some v"
    and inv': "strictInv ?c (h @ [v])"
    and eqs: "limit ?c = limit c" "interval ?c = interval c"
    and vb: "now \<le> v" "v \<le> B + interval c"
    by blast
  have I': "0 < interval ?c" using eqs Cons.prems(2) by simp
  have hb: "\<forall>t \<in> set (h @ [v]). 0 \<le> t \<and> t \<le> B + interval c"
    using Cons.prems(2,3) vb now by auto
  have nb: "\<forall>n \<in> set nows. 0 \<le> n \<and> n \<le> B + interval c"
    using Cons.prems(2,4) by auto
  have Bb: "(B + interval c) + int (length nows) * interval ?c \<le> 2 ^ 53"
    using Cons.prems(5) eqs by (simp add: algebra_simps)
  from Cons.IH[OF inv' I' hb nb Bb] obtain vs where
    vs: "strictCalls nows ?c = map (\<lambda>(now, v). (Some (v - now), Some v)) (zip nows vs)"
      "length vs = length nows" "\<forall>k < length vs. nows ! k \<le> vs ! k"
      "spaced (nat (limit c)) (interval c) ((h @ [v]) @ vs)"
    using eqs by auto
  have nth: "\<forall>k < length (v # vs). (now # nows) ! k \<le> (v # vs) ! k"
    using vb(1) vs(3) by (auto simp: nth_Cons split: nat.splits)
  have run: "strictCalls (now # nows) c =
      map (\<lambda>(now, v). (Some (v - now), Some v)) (zip (now # nows) (v # vs))"
    using d v vs(1) by (simp add: case_prod_beta)
  show ?case
    by (rule exI[of _ "v # vs"]) (use run nth vs(2,4) in simp)
qed

lemma strictInv_fresh: "0 < limit c \<Longrightarrow> strictTicks c = [] \<Longrightarrow> strictInv c []"
  by (simp add: strictInv_def spaced_def)


text \<open>
  Where a sum rounds, the recorded timestamp can fall short. Limit 1, unit 1 ms, interval
  \<open>2 ^ 53\<close>, two calls at 1001: the sum 9007199254741993 is a tie and rounds to
  9007199254741992, one unit less than an interval after 1001, so the window of one
  interval starting at 1001 holds both timestamps. The same with the interval
  \<open>1000 / 3\<close> ms, the double 5864062014805333 in units of 1/17592186044416 ms, and two
  calls at 1700000000000 ms (29906716275507200000000000 units): the second timestamp is
  5864060583149568 units (333.333251953125 ms) after the first, less than the interval.
\<close>

theorem strict_rounding_counterexample:
  "map snd (strictCalls [1001, 1001] (newClosure 1 9007199254740992 (Some True))) =
     [Some 1001, Some 9007199254741992] \<and>
   \<not> (1001 + 9007199254740992 \<le> (9007199254741992 :: int)) \<and>
   length (filter (\<lambda>t. 1001 \<le> t \<and> t < 1001 + 9007199254740992)
     [1001, 9007199254741992 :: int]) = 2 \<and>
   map snd (strictCalls [29906716275507200000000000, 29906716275507200000000000]
     (newClosure 1 5864062014805333 (Some True))) =
     [Some 29906716275507200000000000, Some 29906716281371260583149568] \<and>
   \<not> (29906716275507200000000000 + 5864062014805333 \<le> (29906716281371260583149568 :: int))"
  by (simp add: newClosure_def strictDelay_def shift_def Let_def fl_tie fl_third fl_exact)

text \<open>
  C1 (as amended). In strict mode with a positive limit and a positive interval, starting
  from an empty \<open>strictTicks\<close>, for \<open>n\<close> calls at clock readings between 0 and \<open>M\<close>
  with \<open>M + n * interval\<close> at most \<open>2 ^ 53\<close> units (so that no sum or difference the
  calculator forms is rounded): every call returns the delay from its clock reading to
  the timestamp it records, which is not earlier than the reading; each recorded
  timestamp is at least \<open>interval\<close> later than the one recorded \<open>limit\<close> calls before;
  and every window \<open>[a, a + interval)\<close> holds at most \<open>limit\<close> of the recorded
  timestamps.
\<close>

theorem strict_limit_enforced_when_exact:
  assumes "0 < limit c" and "0 < interval c" and "strictTicks c = []"
    and "\<forall>now \<in> set nows. 0 \<le> now \<and> now \<le> M"
    and "M + int (length nows) * interval c \<le> 2 ^ 53"
  shows "\<exists>ts. strictCalls nows c = map (\<lambda>(now, t). (Some (t - now), Some t)) (zip nows ts) \<and>
           length ts = length nows \<and>
           (\<forall>k < length ts. nows ! k \<le> ts ! k) \<and>
           (\<forall>k. k + nat (limit c) < length ts \<longrightarrow>
              ts ! k + interval c \<le> ts ! (k + nat (limit c))) \<and>
           (\<forall>a. length (filter (\<lambda>t. a \<le> t \<and> t < a + interval c) ts) \<le> nat (limit c))"
proof -
  have "\<forall>t \<in> set ([] :: int list). 0 \<le> t \<and> t \<le> M" by simp
  from strictCalls_spaced[OF strictInv_fresh[OF assms(1,3)] assms(2) this assms(4,5)]
  obtain ts where ts: "strictCalls nows c =
      map (\<lambda>(now, t). (Some (t - now), Some t)) (zip nows ts)"
    "length ts = length nows" "\<forall>k < length ts. nows ! k \<le> ts ! k"
    "spaced (nat (limit c)) (interval c) ts" by auto
  have "length (filter (\<lambda>t. a \<le> t \<and> t < a + interval c) ts) \<le> nat (limit c)" for a
    by (rule spaced_window[OF ts(4)]) (use assms in simp_all)
  with ts show ?thesis unfolding spaced_def by blast
qed

theorem strict_limit_enforced_when_exact_witness:
  "(0::int) < limit (newClosure 2 10 (Some True)) \<and>
   (0::int) < interval (newClosure 2 10 (Some True)) \<and>
   strictTicks (newClosure 2 10 (Some True)) = [] \<and>
   30 + int (length [0, 0, 0, 5, 30 :: int]) * interval (newClosure 2 10 (Some True)) \<le> 2 ^ 53 \<and>
   strictCalls [0, 0, 0, 5, 30] (newClosure 2 10 (Some True)) =
     [(Some 0, Some 0), (Some 0, Some 0), (Some 10, Some 10), (Some 5, Some 10),
      (Some 0, Some 30)] \<and>
   (\<exists>ts. strictCalls [0, 0, 0, 5, 30] (newClosure 2 10 (Some True)) =
        map (\<lambda>(now, t). (Some (t - now), Some t)) (zip [0, 0, 0, 5, 30] ts) \<and>
      length ts = length [0, 0, 0, 5, 30 :: int] \<and>
      (\<forall>k. k + nat (limit (newClosure 2 10 (Some True))) < length ts \<longrightarrow>
         ts ! k + interval (newClosure 2 10 (Some True))
           \<le> ts ! (k + nat (limit (newClosure 2 10 (Some True))))) \<and>
      (\<forall>a. length (filter (\<lambda>t. a \<le> t \<and> t < a + interval (newClosure 2 10 (Some True))) ts)
         \<le> nat (limit (newClosure 2 10 (Some True)))))"
proof -
  have h: "0 < limit (newClosure 2 10 (Some True))" "0 < interval (newClosure 2 10 (Some True))"
    "strictTicks (newClosure 2 10 (Some True)) = []"
    by (simp_all add: newClosure_def)
  have b: "\<forall>now \<in> set [0, 0, 0, 5, 30 :: int]. 0 \<le> now \<and> now \<le> 30" by simp
  have m: "30 + int (length [0, 0, 0, 5, 30 :: int]) * interval (newClosure 2 10 (Some True))
      \<le> 2 ^ 53"
    by (simp add: newClosure_def)
  have run: "strictCalls [0, 0, 0, 5, 30] (newClosure 2 10 (Some True)) =
     [(Some 0, Some 0), (Some 0, Some 0), (Some 10, Some 10), (Some 5, Some 10),
      (Some 0, Some 30)]"
    by (simp add: newClosure_def strictDelay_def shift_def Let_def fl_exact)
  from strict_limit_enforced_when_exact[OF h b m] h m run show ?thesis by blast
qed

section \<open>The windowed calculator, branch by branch\<close>

text \<open>
  The specification gives delay 0 to a call admitted into the current window. With limit
  2 and interval 100, four calls at clock reading 1000: the third finds the window full
  and moves \<open>currentTick\<close> to 1100; the fourth is admitted into that window, the source
  returns \<open>currentTick - now = 100\<close> for it, the specification's wording gives 0.
\<close>

theorem windowedDelay_admitted_counterexample:
  "activeCount (snd (windowedCalls [1000, 1000, 1000] (newClosure 2 100 None))) < 2 \<and>
   \<not> 1000 - currentTick (snd (windowedCalls [1000, 1000, 1000] (newClosure 2 100 None))) > 100 \<and>
   fst (windowedDelay 1000 (snd (windowedCalls [1000, 1000, 1000] (newClosure 2 100 None)))) = 100 \<and>
   fst (spec_windowedDelay 1000 (snd (windowedCalls [1000, 1000, 1000] (newClosure 2 100 None)))) = 0"
  by (simp add: windowedDelay_def spec_windowedDelay_def newClosure_def Let_def)

text \<open>
  C2 (as amended). \<open>windowedDelay\<close> takes exactly one of three branches. If
  \<open>now - currentTick > interval\<close>: \<open>currentTick = now\<close>, \<open>activeCount = 1\<close>, delay 0.
  Else if \<open>activeCount < limit\<close>: \<open>activeCount\<close> is incremented and the delay is
  \<open>currentTick - now\<close>, not 0. Else: \<open>currentTick\<close> advances by \<open>interval\<close>,
  \<open>activeCount = 1\<close>, and the delay is the new \<open>currentTick - now\<close>.
\<close>

theorem windowedDelay_branches:
  "(now - currentTick c > interval c \<longrightarrow>
      windowedDelay now c = (0, c\<lparr>activeCount := 1, currentTick := now\<rparr>)) \<and>
   (\<not> now - currentTick c > interval c \<and> activeCount c < limit c \<longrightarrow>
      windowedDelay now c = (currentTick c - now, c\<lparr>activeCount := activeCount c + 1\<rparr>)) \<and>
   (\<not> now - currentTick c > interval c \<and> \<not> activeCount c < limit c \<longrightarrow>
      windowedDelay now c =
        (currentTick c + interval c - now,
         c\<lparr>currentTick := currentTick c + interval c, activeCount := 1\<rparr>))"
  by (simp add: windowedDelay_def Let_def)

theorem windowedDelay_branches_witness:
  "windowedDelay 1000 (newClosure 2 100 None) =
     (0, (newClosure 2 100 None)\<lparr>activeCount := 1, currentTick := 1000\<rparr>) \<and>
   windowedDelay 1050 ((newClosure 2 100 None)\<lparr>activeCount := 1, currentTick := 1000\<rparr>) =
     (- 50, (newClosure 2 100 None)\<lparr>activeCount := 2, currentTick := 1000\<rparr>) \<and>
   windowedDelay 1050 ((newClosure 2 100 None)\<lparr>activeCount := 2, currentTick := 1000\<rparr>) =
     (50, (newClosure 2 100 None)\<lparr>activeCount := 1, currentTick := 1100\<rparr>)"
  using windowedDelay_branches[where now = 1000 and c = "newClosure 2 100 None"]
    windowedDelay_branches[where now = 1050
      and c = "(newClosure 2 100 None)\<lparr>activeCount := 1, currentTick := 1000\<rparr>"]
    windowedDelay_branches[where now = 1050
      and c = "(newClosure 2 100 None)\<lparr>activeCount := 2, currentTick := 1000\<rparr>"]
  by (simp add: newClosure_def)

section \<open>Construction checks finiteness only\<close>

text \<open>
  A limit of 0 and an interval of -100 are finite, so both checks pass and the closure
  is created with them.
\<close>

theorem pThrottle_nonpositive_counterexample:
  "pThrottle (Finite 0) (Finite (- 100)) None (emptyWorld :: int world) =
     Inr (0, emptyWorld\<lparr>closures := (closures emptyWorld)(0 := newClosure 0 (- 100) None),
                        nextClosure := 1\<rparr>)"
  by (simp add: pThrottle_def emptyWorld_def)

text \<open>
  C3 (as amended). \<open>pThrottle\<close> raises its \<open>TypeError\<close> if and only if \<open>limit\<close> or
  \<open>interval\<close> is not finite (\<open>NaN\<close> or an infinity); the error is the whole result, no
  closure is stored. For finite values of either sign construction succeeds and stores
  the new closure at a fresh address.
\<close>

theorem pThrottle_fails_iff:
  "((\<exists>e. pThrottle l i s w = Inl e) \<longleftrightarrow> \<not> (isFinite l \<and> isFinite i)) \<and>
   ((\<exists>a w'. pThrottle l i s w = Inr (a, w')) \<longleftrightarrow> isFinite l \<and> isFinite i) \<and>
   pThrottle (Finite n) (Finite m) s w =
     Inr (nextClosure w,
          w\<lparr>closures := (closures w)(nextClosure w := newClosure n m s),
            nextClosure := Suc (nextClosure w)\<rparr>)"
  by (auto simp: pThrottle_def)

theorem pThrottle_fails_iff_witness:
  "(\<exists>e. pThrottle NaN (Finite 100) None (emptyWorld :: int world) = Inl e) \<and>
   (\<exists>e. pThrottle (Finite 5) PosInfinity None (emptyWorld :: int world) = Inl e) \<and>
   (\<exists>a w'. pThrottle (Finite 5) (Finite 100) None (emptyWorld :: int world) = Inr (a, w'))"
  using pThrottle_fails_iff[of NaN "Finite 100" None "emptyWorld :: int world"]
    pThrottle_fails_iff[of "Finite 5" PosInfinity None "emptyWorld :: int world"]
    pThrottle_fails_iff[of "Finite 5" "Finite 100" None "emptyWorld :: int world"]
  by simp

section \<open>What the operations leave alone\<close>

lemma strictDelay_config:
  "limit (snd (strictDelay now c)) = limit c \<and> interval (snd (strictDelay now c)) = interval c \<and>
   strict (snd (strictDelay now c)) = strict c \<and> queue (snd (strictDelay now c)) = queue c"
  by (simp add: strictDelay_def shift_def Let_def split: prod.splits option.splits list.splits)

lemma windowedDelay_config:
  "limit (snd (windowedDelay now c)) = limit c \<and> interval (snd (windowedDelay now c)) = interval c \<and>
   strict (snd (windowedDelay now c)) = strict c \<and> queue (snd (windowedDelay now c)) = queue c \<and>
   strictTicks (snd (windowedDelay now c)) = strictTicks c"
  by (simp add: windowedDelay_def Let_def)

lemma getDelay_config:
  "limit (snd (getDelay now c)) = limit c \<and> interval (snd (getDelay now c)) = interval c \<and>
   strict (snd (getDelay now c)) = strict c \<and> queue (snd (getDelay now c)) = queue c"
  using strictDelay_config[of now c] windowedDelay_config[of now c]
  by (simp add: getDelay_def case_prod_beta)

lemma throttled_closure:
  "closures (snd (throttled t args now w)) a =
     (if isEnabled t \<and> a = env t
      then (snd (getDelay now (closures w a)))
             \<lparr>queue := mapSet (nextTimer w) (nextPromise w) (queue (snd (getDelay now (closures w a))))\<rparr>
      else closures w a)"
  by (simp add: throttled_def Let_def case_prod_beta)

lemma throttled_counters:
  "nextClosure (snd (throttled t args now w)) = nextClosure w \<and>
   nextTimer w \<le> nextTimer (snd (throttled t args now w)) \<and>
   (isEnabled t \<longrightarrow> nextTimer (snd (throttled t args now w)) = Suc (nextTimer w))"
  by (simp add: throttled_def Let_def case_prod_beta)

lemma execute_closure:
  "limit (closures (execute h w) a) = limit (closures w a) \<and>
   strictTicks (closures (execute h w) a) = strictTicks (closures w a) \<and>
   (queue (closures (execute h w) a) = queue (closures w a) \<or>
    queue (closures (execute h w) a) = mapDelete h (queue (closures w a)))"
  by (simp add: execute_def Let_def split: option.splits outcome.splits)

lemma execute_counters: "nextTimer (execute h w) = nextTimer w"
  by (simp add: execute_def Let_def split: option.splits outcome.splits)

lemma foldl_abortEntry_frame:
  "closures (foldl abortEntry w q) = closures w \<and>
   nextClosure (foldl abortEntry w q) = nextClosure w \<and>
   nextTimer (foldl abortEntry w q) = nextTimer w \<and>
   nextPromise (foldl abortEntry w q) = nextPromise w \<and>
   uncaught (foldl abortEntry w q) = uncaught w"
  by (induction q arbitrary: w) (simp_all add: abortEntry_def)

lemma foldl_abortEntry_timers:
  "timers (foldl abortEntry w q) h = (if h \<in> fst ` set q then None else timers w h)"
  by (induction q arbitrary: w) (auto simp: abortEntry_def)

lemma foldl_abortEntry_promises:
  "promises (foldl abortEntry w q) p =
     (if p \<in> snd ` set q
      then (case promises w p of Some Pending \<Rightarrow> Some (Rejected AbortError) | x \<Rightarrow> x)
      else promises w p)"
proof (induction q arbitrary: w)
  case Nil
  then show ?case by simp
next
  case (Cons e q)
  show ?case
    by (simp add: Cons.IH)
      (auto simp: abortEntry_def settle_def split: option.splits promise.splits)
qed

lemma abort_closure:
  "limit (closures (abort t w) a) = limit (closures w a) \<and>
   (strictTicks (closures (abort t w) a) = strictTicks (closures w a) \<or>
    strictTicks (closures (abort t w) a) = [])"
  by (simp add: abort_def Let_def foldl_abortEntry_frame)

section \<open>Reachable worlds\<close>

lemma reachable_fresh: "reachable (fresh l i s)"
proof (cases "pThrottle l i s (emptyWorld :: 'a world)")
  case (Inl e)
  then show ?thesis by (simp add: fresh_def construct_def reach_init)
next
  case (Inr r)
  obtain a w where r: "r = (a, w)" by (cases r)
  from reach_pThrottle[OF reach_init, of l i s a w] Inr r show ?thesis
    by (simp add: fresh_def construct_def)
qed

lemma reachable_calls:
  "reachable w \<Longrightarrow> env t < nextClosure w \<Longrightarrow> reachable (calls t nows w)"
proof (induction nows arbitrary: w)
  case Nil
  then show ?case by simp
next
  case (Cons now nows)
  from Cons.prems have "reachable (snd (throttled t [] now w))"
    by (rule reach_throttled)
  moreover from Cons.prems(2) have "env t < nextClosure (snd (throttled t [] now w))"
    by (simp add: throttled_counters)
  ultimately show ?case using Cons.IH by simp
qed

lemma strictDelay_defined:
  assumes "0 < limit c" "None \<notin> set (strictTicks c)"
  shows "None \<notin> set (strictTicks (snd (strictDelay now c))) \<and>
         (\<exists>d. fst (strictDelay now c) = Some d \<and> 0 \<le> d)"
proof (cases "int (length (strictTicks c)) < limit c")
  case True
  with assms show ?thesis by (simp add: strictDelay_def)
next
  case False
  with assms(1) obtain t0 rest where ts: "strictTicks c = t0 # rest"
    by (cases "strictTicks c") auto
  with assms(2) obtain x where x: "t0 = Some x" by (cases t0) auto
  from ts assms(2) have "None \<notin> set rest" by simp
  moreover have "\<not> fl (x + interval c) \<le> now \<Longrightarrow> 0 \<le> fl (fl (x + interval c) - now)"
    by (rule fl_nonneg) simp
  ultimately show ?thesis using False ts x by (auto simp: strictDelay_def shift_def)
qed

lemma getDelay_defined:
  assumes "0 < limit c" "None \<notin> set (strictTicks c)"
  shows "None \<notin> set (strictTicks (snd (getDelay now c)))"
  using strictDelay_defined[OF assms, of now] windowedDelay_config[of now c] assms(2)
  by (simp add: getDelay_def case_prod_beta)

lemma reachable_ticksDefined: "reachable w \<Longrightarrow> ticksDefined w"
proof (induction rule: reachable.induct)
  case reach_init
  show ?case by (simp add: ticksDefined_def emptyWorld_def newClosure_def)
next
  case (reach_pThrottle w l i s a w')
  then show ?case
    by (auto simp: ticksDefined_def pThrottle_def newClosure_def split: if_splits)
next
  case (reach_throttled w t args now)
  show ?case unfolding ticksDefined_def
  proof (intro allI impI)
    fix a assume L: "0 < limit (closures (snd (throttled t args now w)) a)"
    show "None \<notin> set (strictTicks (closures (snd (throttled t args now w)) a))"
    proof (cases "isEnabled t \<and> a = env t")
      case True
      then have cl: "closures (snd (throttled t args now w)) a =
          (snd (getDelay now (closures w a)))
             \<lparr>queue := mapSet (nextTimer w) (nextPromise w)
                         (queue (snd (getDelay now (closures w a))))\<rparr>"
        by (simp add: throttled_closure)
      with L have La: "0 < limit (closures w a)"
        by (simp add: getDelay_config)
      with reach_throttled.IH have "None \<notin> set (strictTicks (closures w a))"
        by (simp add: ticksDefined_def)
      from getDelay_defined[OF La this, of now]
      show ?thesis by (simp add: cl)
    next
      case False
      then have cl: "closures (snd (throttled t args now w)) a = closures w a"
        by (auto simp: throttled_closure)
      with L reach_throttled.IH show ?thesis
        by (simp add: ticksDefined_def)
    qed
  qed
next
  case (reach_execute w h)
  then show ?case by (simp add: ticksDefined_def execute_closure)
next
  case (reach_abort w t)
  show ?case unfolding ticksDefined_def
  proof (intro allI impI)
    fix a assume "0 < limit (closures (abort t w) a)"
    then have "None \<notin> set (strictTicks (closures w a))"
      using reach_abort.IH by (simp add: ticksDefined_def abort_closure)
    with abort_closure[of t w a] show "None \<notin> set (strictTicks (closures (abort t w) a))"
      by auto
  qed
qed

section \<open>Sign of the delay\<close>

text \<open>
  Windowed mode, limit 5, interval 100: a first call at 1000 opens the window at 1000;
  a call at 1050 is admitted into it with delay \<open>1000 - 1050 = -50\<close>, and that is the
  delay its timer is set with.
\<close>

theorem negative_windowed_delay_counterexample:
  "reachable (calls (throttle 0 (\<lambda>args. Returns (7::int))) [1000]
      (fresh (Finite 5) (Finite 100) None)) \<and>
   fst (getDelay 1050
     (closures (calls (throttle 0 (\<lambda>args. Returns (7::int))) [1000]
        (fresh (Finite 5) (Finite 100) None)) 0)) = Some (- 50) \<and>
   map_option t_delay
     (timers (calls (throttle 0 (\<lambda>args. Returns (7::int))) [1000, 1050]
        (fresh (Finite 5) (Finite 100) None)) 1) = Some (Some (- 50))"
proof -
  have "reachable (calls (throttle 0 (\<lambda>args. Returns (7::int))) [1000]
      (fresh (Finite 5) (Finite 100) None))"
    by (intro reachable_calls reachable_fresh) (simp add: ev)
  then show ?thesis by (simp add: ev)
qed

text \<open>
  C4 (as amended). In every reachable world, for a closure with positive limit and
  interval and every clock reading: in strict mode the delay is a number and is at least
  0; in windowed mode the delay is a number and is at least \<open>-interval\<close>, and it is
  negative only for a call admitted into the current window (not a new window, window
  not full), where it is \<open>currentTick - now\<close>.
\<close>

theorem delay_bounds:
  assumes "reachable w" and "0 < limit (closures w a)" and "0 < interval (closures w a)"
  shows "(strict (closures w a) \<longrightarrow>
            (\<exists>d. fst (getDelay now (closures w a)) = Some d \<and> 0 \<le> d)) \<and>
         (\<not> strict (closures w a) \<longrightarrow>
            (\<exists>d. fst (getDelay now (closures w a)) = Some d \<and> - interval (closures w a) \<le> d \<and>
               (d < 0 \<longrightarrow> \<not> now - currentTick (closures w a) > interval (closures w a) \<and>
                  activeCount (closures w a) < limit (closures w a) \<and>
                  d = currentTick (closures w a) - now)))"
proof (intro conjI impI)
  assume "strict (closures w a)"
  moreover from reachable_ticksDefined[OF assms(1)] assms(2)
  have "None \<notin> set (strictTicks (closures w a))" by (simp add: ticksDefined_def)
  ultimately show "\<exists>d. fst (getDelay now (closures w a)) = Some d \<and> 0 \<le> d"
    using strictDelay_defined[OF assms(2), of now] by (simp add: getDelay_def)
next
  assume "\<not> strict (closures w a)"
  with assms(3)
  show "\<exists>d. fst (getDelay now (closures w a)) = Some d \<and> - interval (closures w a) \<le> d \<and>
          (d < 0 \<longrightarrow> \<not> now - currentTick (closures w a) > interval (closures w a) \<and>
             activeCount (closures w a) < limit (closures w a) \<and>
             d = currentTick (closures w a) - now)"
    by (simp add: getDelay_def windowedDelay_def Let_def)
qed

theorem delay_bounds_witness:
  "reachable (calls (throttle 0 (\<lambda>args. Returns (7::int))) [0, 40, 40]
      (fresh (Finite 2) (Finite 100) (Some True))) \<and>
   strict (closures (calls (throttle 0 (\<lambda>args. Returns (7::int))) [0, 40, 40]
      (fresh (Finite 2) (Finite 100) (Some True))) 0) \<and>
   fst (getDelay 50 (closures (calls (throttle 0 (\<lambda>args. Returns (7::int))) [0, 40, 40]
      (fresh (Finite 2) (Finite 100) (Some True))) 0)) = Some 90 \<and>
   (\<exists>d. fst (getDelay 50 (closures (calls (throttle 0 (\<lambda>args. Returns (7::int))) [0, 40, 40]
      (fresh (Finite 2) (Finite 100) (Some True))) 0)) = Some d \<and> 0 \<le> d) \<and>
   reachable (calls (throttle 0 (\<lambda>args. Returns (7::int))) [1000]
      (fresh (Finite 5) (Finite 100) None)) \<and>
   \<not> strict (closures (calls (throttle 0 (\<lambda>args. Returns (7::int))) [1000]
      (fresh (Finite 5) (Finite 100) None)) 0) \<and>
   (\<exists>d. fst (getDelay 1050 (closures (calls (throttle 0 (\<lambda>args. Returns (7::int))) [1000]
      (fresh (Finite 5) (Finite 100) None)) 0)) = Some d \<and>
      - interval (closures (calls (throttle 0 (\<lambda>args. Returns (7::int))) [1000]
      (fresh (Finite 5) (Finite 100) None)) 0) \<le> d \<and> d = - 50)"
proof -
  let ?s = "calls (throttle 0 (\<lambda>args. Returns (7::int))) [0, 40, 40]
      (fresh (Finite 2) (Finite 100) (Some True))"
  let ?u = "calls (throttle 0 (\<lambda>args. Returns (7::int))) [1000]
      (fresh (Finite 5) (Finite 100) None)"
  have r: "reachable ?s" "reachable ?u"
    by (intro reachable_calls reachable_fresh, simp add: ev)+
  have h: "0 < limit (closures ?s 0)" "0 < interval (closures ?s 0)" "strict (closures ?s 0)"
    by (simp_all add: ev)
  have k: "0 < limit (closures ?u 0)" "0 < interval (closures ?u 0)" "\<not> strict (closures ?u 0)"
    by (simp_all add: ev)
  have v: "fst (getDelay 50 (closures ?s 0)) = Some 90"
    "fst (getDelay 1050 (closures ?u 0)) = Some (- 50)"
    by (simp_all add: ev)
  from delay_bounds[OF r(1) h(1,2), of 50] h(3)
  have a: "\<exists>d. fst (getDelay 50 (closures ?s 0)) = Some d \<and> 0 \<le> d" by blast
  from delay_bounds[OF r(2) k(1,2), of 1050] k(3)
  have "\<exists>d. fst (getDelay 1050 (closures ?u 0)) = Some d \<and> - interval (closures ?u 0) \<le> d"
    by blast
  with v(2)
  have b: "\<exists>d. fst (getDelay 1050 (closures ?u 0)) = Some d \<and>
      - interval (closures ?u 0) \<le> d \<and> d = - 50"
    by auto
  from r h(3) k(3) v(1) a b show ?thesis by blast
qed

section \<open>Abort\<close>

text \<open>
  Strict mode, limit 1, interval 10000. One call at 50000 fires, so the queue is empty
  while \<open>strictTicks\<close> remembers 50000: a call at 50001 would wait 9999. After
  \<open>abort()\<close> on that empty queue the same call waits 0: the abort was not a no-op.
\<close>

theorem abort_empty_queue_counterexample:
  "queueSize (throttle 0 (\<lambda>args. Returns (7::int)))
     (execute 0 (calls (throttle 0 (\<lambda>args. Returns 7)) [50000]
        (fresh (Finite 1) (Finite 10000) (Some True)))) = 0 \<and>
   fst (getDelay 50001 (closures
     (execute 0 (calls (throttle 0 (\<lambda>args. Returns (7::int))) [50000]
        (fresh (Finite 1) (Finite 10000) (Some True)))) 0)) = Some 9999 \<and>
   fst (getDelay 50001 (closures
     (abort (throttle 0 (\<lambda>args. Returns (7::int)))
       (execute 0 (calls (throttle 0 (\<lambda>args. Returns (7::int))) [50000]
          (fresh (Finite 1) (Finite 10000) (Some True))))) 0)) = Some 0"
  by (simp add: ev)

text \<open>
  C5 (as amended). \<open>abort()\<close> always returns. For every entry of the queue it clears
  the entry's timer and, the entry's promise being pending, rejects it with
  \<open>AbortError\<close>; \<open>queueSize\<close> is 0 afterwards. With an empty queue it cancels and
  rejects nothing and changes only \<open>strictTicks\<close>, which it empties; it changes nothing
  at all when \<open>strictTicks\<close> is empty too.
\<close>

theorem abort_cancels_pending:
  "(\<forall>e \<in> set (queue (closures w (env t))).
      timers (abort t w) (fst e) = None \<and>
      (promises w (snd e) = Some Pending \<longrightarrow>
         promises (abort t w) (snd e) = Some (Rejected AbortError))) \<and>
   queueSize t (abort t w) = 0 \<and>
   (queue (closures w (env t)) = [] \<longrightarrow>
      abort t w =
        w\<lparr>closures := (closures w)(env t := (closures w (env t))\<lparr>strictTicks := []\<rparr>)\<rparr>) \<and>
   (queue (closures w (env t)) = [] \<and> strictTicks (closures w (env t)) = [] \<longrightarrow>
      abort t w = w)"
proof (intro conjI ballI impI)
  fix e assume e: "e \<in> set (queue (closures w (env t)))"
  show "timers (abort t w) (fst e) = None"
    using e by (simp add: abort_def Let_def foldl_abortEntry_timers)
  assume "promises w (snd e) = Some Pending"
  then show "promises (abort t w) (snd e) = Some (Rejected AbortError)"
    using e by (simp add: abort_def Let_def foldl_abortEntry_promises)
next
  show "queueSize t (abort t w) = 0"
    by (simp add: abort_def queueSize_def Let_def)
next
  assume q: "queue (closures w (env t)) = []"
  have eq: "(closures w (env t))\<lparr>queue := [], strictTicks := []\<rparr> =
      (closures w (env t))\<lparr>strictTicks := []\<rparr>"
    using q by simp
  show "abort t w =
      w\<lparr>closures := (closures w)(env t := (closures w (env t))\<lparr>strictTicks := []\<rparr>)\<rparr>"
    by (simp add: abort_def Let_def q eq)
next
  assume "queue (closures w (env t)) = [] \<and> strictTicks (closures w (env t)) = []"
  then have q: "queue (closures w (env t)) = []" and s: "strictTicks (closures w (env t)) = []"
    by simp_all
  have eq: "(closures w (env t))\<lparr>queue := [], strictTicks := []\<rparr> = closures w (env t)"
    using q s by simp
  show "abort t w = w" by (simp add: abort_def Let_def q eq)
qed

theorem abort_cancels_pending_witness:
  "queue (closures (calls (throttle 0 (\<lambda>args. Returns (7::int))) [50000, 50000]
      (fresh (Finite 1) (Finite 10000) None)) 0) = [(0, 0), (1, 1)] \<and>
   promises (calls (throttle 0 (\<lambda>args. Returns (7::int))) [50000, 50000]
      (fresh (Finite 1) (Finite 10000) None)) 1 = Some Pending \<and>
   timers (abort (throttle 0 (\<lambda>args. Returns (7::int)))
     (calls (throttle 0 (\<lambda>args. Returns (7::int))) [50000, 50000]
        (fresh (Finite 1) (Finite 10000) None))) 1 = None \<and>
   promises (abort (throttle 0 (\<lambda>args. Returns (7::int)))
     (calls (throttle 0 (\<lambda>args. Returns (7::int))) [50000, 50000]
        (fresh (Finite 1) (Finite 10000) None))) 1 = Some (Rejected AbortError) \<and>
   queueSize (throttle 0 (\<lambda>args. Returns (7::int)))
     (abort (throttle 0 (\<lambda>args. Returns (7::int)))
       (calls (throttle 0 (\<lambda>args. Returns (7::int))) [50000, 50000]
          (fresh (Finite 1) (Finite 10000) None))) = 0 \<and>
   abort (throttle 0 (\<lambda>args. Returns (7::int))) (fresh (Finite 1) (Finite 10000) None) =
     fresh (Finite 1) (Finite 10000) None"
proof -
  let ?t = "throttle 0 (\<lambda>args. Returns (7::int))"
  let ?init = "fresh (Finite 1) (Finite 10000) None :: int world"
  let ?w = "calls ?t [50000, 50000] ?init"
  have q: "queue (closures ?w 0) = [(0, 0), (1, 1)]" and p: "promises ?w 1 = Some Pending"
    by (simp_all add: ev)
  have m: "(1, 1) \<in> set (queue (closures ?w (env ?t)))"
    by (simp add: ev)
  have s: "snd (1::nat, 1::nat) = 1" "fst (1::nat, 1::nat) = 1" by simp_all
  have e: "queue (closures ?init (env ?t)) = [] \<and> strictTicks (closures ?init (env ?t)) = []"
    by (simp add: ev)
  from abort_cancels_pending[of ?w ?t] have
    b: "\<forall>e \<in> set (queue (closures ?w (env ?t))).
      timers (abort ?t ?w) (fst e) = None \<and>
      (promises ?w (snd e) = Some Pending \<longrightarrow>
         promises (abort ?t ?w) (snd e) = Some (Rejected AbortError))"
    and z: "queueSize ?t (abort ?t ?w) = 0"
    by blast+
  from bspec[OF b m] p have "timers (abort ?t ?w) 1 = None"
    "promises (abort ?t ?w) 1 = Some (Rejected AbortError)"
    by (simp_all only: s)
  moreover from abort_cancels_pending[of ?init ?t] e have "abort ?t ?init = ?init" by blast
  ultimately show ?thesis using q p z by blast
qed

text \<open>
  C8. After \<open>abort()\<close> the closure's \<open>strictTicks\<close> is empty, while \<open>currentTick\<close> and
  \<open>activeCount\<close> are what they were. The next strict call starts a fresh sequence: it
  records only its own reading (delay 0 when the limit is positive).
\<close>

theorem abort_resets_strict_only:
  "strictTicks (closures (abort t w) (env t)) = [] \<and>
   currentTick (closures (abort t w) (env t)) = currentTick (closures w (env t)) \<and>
   activeCount (closures (abort t w) (env t)) = activeCount (closures w (env t)) \<and>
   strictDelay now (closures (abort t w) (env t)) =
     (if 0 < limit (closures w (env t))
      then (Some 0, (closures (abort t w) (env t))\<lparr>strictTicks := [Some now]\<rparr>)
      else (None, (closures (abort t w) (env t))\<lparr>strictTicks := [None]\<rparr>))"
  by (simp add: abort_def Let_def foldl_abortEntry_frame strictDelay_def shift_def)

theorem abort_resets_strict_only_witness:
  "strictTicks (closures (calls (throttle 0 (\<lambda>args. Returns (7::int))) [50000, 50000]
      (fresh (Finite 1) (Finite 10000) (Some True))) 0) = [Some 60000] \<and>
   strictTicks (closures (abort (throttle 0 (\<lambda>args. Returns (7::int)))
     (calls (throttle 0 (\<lambda>args. Returns (7::int))) [50000, 50000]
        (fresh (Finite 1) (Finite 10000) (Some True)))) 0) = [] \<and>
   currentTick (closures (calls (throttle 0 (\<lambda>args. Returns (7::int))) [50000, 50000]
      (fresh (Finite 1) (Finite 10000) None)) 0) = 60000 \<and>
   currentTick (closures (abort (throttle 0 (\<lambda>args. Returns (7::int)))
     (calls (throttle 0 (\<lambda>args. Returns (7::int))) [50000, 50000]
        (fresh (Finite 1) (Finite 10000) None))) 0) = 60000"
  using abort_resets_strict_only[of "throttle 0 (\<lambda>args. Returns (7::int))"
      "calls (throttle 0 (\<lambda>args. Returns (7::int))) [50000, 50000]
        (fresh (Finite 1) (Finite 10000) (Some True))" 0]
    abort_resets_strict_only[of "throttle 0 (\<lambda>args. Returns (7::int))"
      "calls (throttle 0 (\<lambda>args. Returns (7::int))) [50000, 50000]
        (fresh (Finite 1) (Finite 10000) None)" 0]
  by (simp add: ev)

section \<open>The disabled wrapper\<close>

text \<open>
  C6. A call through a wrapper whose \<open>isEnabled\<close> is false returns a new promise that
  already holds what the callee did: fulfilled with the value it returned, rejected with
  the very reason of the rejected promise it returned, rejected with the very value it
  threw. No timer is set, no closure changes (so no queue, \<open>queueSize\<close> or algorithm
  state does), and the result does not depend on the closures or on the clock.
\<close>

theorem disabled_bypasses:
  assumes "\<not> isEnabled t"
  shows "fst (throttled t args now w) = nextPromise w \<and>
         (\<forall>v. callee t args = Returns v \<longrightarrow>
            promises (snd (throttled t args now w)) (nextPromise w) = Some (Fulfilled v)) \<and>
         (\<forall>e. callee t args = ReturnsRejected e \<longrightarrow>
            promises (snd (throttled t args now w)) (nextPromise w) = Some (Rejected (Raised e))) \<and>
         (\<forall>e. callee t args = Throws e \<longrightarrow>
            promises (snd (throttled t args now w)) (nextPromise w) = Some (Rejected (Raised e))) \<and>
         (\<forall>p. p \<noteq> nextPromise w \<longrightarrow>
            promises (snd (throttled t args now w)) p = promises w p) \<and>
         closures (snd (throttled t args now w)) = closures w \<and>
         timers (snd (throttled t args now w)) = timers w \<and>
         uncaught (snd (throttled t args now w)) = uncaught w \<and>
         queueSize t' (snd (throttled t args now w)) = queueSize t' w \<and>
         snd (throttled t args now' (w\<lparr>closures := cs\<rparr>)) =
           (snd (throttled t args now w))\<lparr>closures := cs\<rparr>"
  using assms by (simp add: throttled_def queueSize_def)

theorem disabled_bypasses_witness:
  "\<not> isEnabled ((throttle 0 (\<lambda>args. Returns (7::int)))\<lparr>isEnabled := False\<rparr>) \<and>
   fst (throttled ((throttle 0 (\<lambda>args. Returns (7::int)))\<lparr>isEnabled := False\<rparr>) [] 50001
     (calls (throttle 0 (\<lambda>args. Returns 7)) [50000, 50000]
        (fresh (Finite 1) (Finite 10000) None))) = 2 \<and>
   promises (snd (throttled ((throttle 0 (\<lambda>args. Returns (7::int)))\<lparr>isEnabled := False\<rparr>) [] 50001
     (calls (throttle 0 (\<lambda>args. Returns 7)) [50000, 50000]
        (fresh (Finite 1) (Finite 10000) None)))) 2 = Some (Fulfilled 7) \<and>
   promises (snd (throttled ((throttle 0 (\<lambda>args. ReturnsRejected (7::int)))\<lparr>isEnabled := False\<rparr>)
     [] 50001
     (calls (throttle 0 (\<lambda>args. Returns 7)) [50000, 50000]
        (fresh (Finite 1) (Finite 10000) None)))) 2 = Some (Rejected (Raised 7)) \<and>
   promises (snd (throttled ((throttle 0 (\<lambda>args. Throws (7::int)))\<lparr>isEnabled := False\<rparr>)
     [] 50001
     (calls (throttle 0 (\<lambda>args. Returns 7)) [50000, 50000]
        (fresh (Finite 1) (Finite 10000) None)))) 2 = Some (Rejected (Raised 7)) \<and>
   queueSize (throttle 0 (\<lambda>args. Returns (7::int)))
     (snd (throttled ((throttle 0 (\<lambda>args. Returns (7::int)))\<lparr>isEnabled := False\<rparr>) [] 50001
       (calls (throttle 0 (\<lambda>args. Returns 7)) [50000, 50000]
          (fresh (Finite 1) (Finite 10000) None)))) = 2"
proof -
  let ?ok = "(throttle 0 (\<lambda>args. Returns (7::int)))\<lparr>isEnabled := False\<rparr>"
  let ?failing = "(throttle 0 (\<lambda>args. ReturnsRejected (7::int)))\<lparr>isEnabled := False\<rparr>"
  let ?throwing = "(throttle 0 (\<lambda>args. Throws (7::int)))\<lparr>isEnabled := False\<rparr>"
  let ?w = "calls (throttle 0 (\<lambda>args. Returns (7::int))) [50000, 50000]
        (fresh (Finite 1) (Finite 10000) None)"
  have d: "\<not> isEnabled ?ok" "\<not> isEnabled ?failing" "\<not> isEnabled ?throwing"
    by (simp_all add: throttle_def)
  have c: "callee ?ok [] = Returns 7" "callee ?failing [] = ReturnsRejected 7"
    "callee ?throwing [] = Throws 7"
    by (simp_all add: throttle_def)
  have n: "nextPromise ?w = 2" "queueSize (throttle 0 (\<lambda>args. Returns (7::int))) ?w = 2"
    by (simp_all add: ev)
  from disabled_bypasses[OF d(1), of "[]" 50001 ?w "throttle 0 (\<lambda>args. Returns (7::int))"] c(1)
  have a: "fst (throttled ?ok [] 50001 ?w) = nextPromise ?w"
    "promises (snd (throttled ?ok [] 50001 ?w)) (nextPromise ?w) = Some (Fulfilled 7)"
    "queueSize (throttle 0 (\<lambda>args. Returns (7::int))) (snd (throttled ?ok [] 50001 ?w)) =
       queueSize (throttle 0 (\<lambda>args. Returns (7::int))) ?w"
    by blast+
  from disabled_bypasses[OF d(2), of "[]" 50001 ?w] c(2)
  have b: "promises (snd (throttled ?failing [] 50001 ?w)) (nextPromise ?w) =
      Some (Rejected (Raised 7))"
    by blast
  from disabled_bypasses[OF d(3), of "[]" 50001 ?w] c(3)
  have e: "promises (snd (throttled ?throwing [] 50001 ?w)) (nextPromise ?w) =
      Some (Rejected (Raised 7))"
    by blast
  from a b e d(1) show ?thesis by (simp only: n) simp
qed



section \<open>The size of the queue\<close>

lemma mapDelete_keys:
  "set (mapDelete k q) \<subseteq> set q \<and>
   (distinct (map fst q) \<longrightarrow> distinct (map fst (mapDelete k q)))"
  by (induction q) (auto simp: mapDelete_def)

lemma mapSet_fresh: "k \<notin> fst ` set q \<Longrightarrow> mapSet k v q = q @ [(k, v)]"
  by (simp add: mapSet_def)

lemma mapDelete_length:
  "distinct (map fst q) \<Longrightarrow> k \<in> fst ` set q \<Longrightarrow> Suc (length (mapDelete k q)) = length q"
proof (induction q)
  case Nil
  then show ?case by simp
next
  case (Cons e q)
  show ?case
  proof (cases "fst e = k")
    case True
    with Cons.prems(1) have "k \<notin> fst ` set q" by auto
    then have "filter (\<lambda>(k', v'). k' \<noteq> k) q = q"
      by (intro filter_True) (auto simp: case_prod_beta)
    with True show ?thesis by (simp add: mapDelete_def case_prod_beta)
  next
    case False
    with Cons.prems have "distinct (map fst q)" "k \<in> fst ` set q" by auto
    from Cons.IH[OF this] False show ?thesis by (simp add: mapDelete_def case_prod_beta)
  qed
qed

lemma reachable_queueKeysFresh: "reachable w \<Longrightarrow> queueKeysFresh w"
proof (induction rule: reachable.induct)
  case reach_init
  show ?case by (simp add: queueKeysFresh_def emptyWorld_def newClosure_def)
next
  case (reach_pThrottle w l i s a w')
  from reach_pThrottle.hyps(2)
  have w': "closures w' = (closures w)(a := newClosure (valueOf l) (valueOf i) s)"
    "nextTimer w' = nextTimer w"
    by (auto simp: pThrottle_def split: if_splits)
  show ?case unfolding queueKeysFresh_def
  proof (intro allI)
    fix b
    from reach_pThrottle.IH
    have "(\<forall>e \<in> set (queue (closures w b)). fst e < nextTimer w) \<and>
          distinct (map fst (queue (closures w b)))"
      unfolding queueKeysFresh_def by blast
    then show "(\<forall>e \<in> set (queue (closures w' b)). fst e < nextTimer w') \<and>
          distinct (map fst (queue (closures w' b)))"
      by (simp add: w' newClosure_def)
  qed
next
  case (reach_throttled w t args now)
  show ?case unfolding queueKeysFresh_def
  proof (intro allI)
    fix a
    from reach_throttled.IH
    have old: "\<forall>e \<in> set (queue (closures w a)). fst e < nextTimer w"
      "distinct (map fst (queue (closures w a)))"
      by (simp_all add: queueKeysFresh_def)
    show "(\<forall>e \<in> set (queue (closures (snd (throttled t args now w)) a)).
             fst e < nextTimer (snd (throttled t args now w))) \<and>
          distinct (map fst (queue (closures (snd (throttled t args now w)) a)))"
    proof (cases "isEnabled t \<and> a = env t")
      case True
      from old(1) have nf: "nextTimer w \<notin> fst ` set (queue (closures w a))" by auto
      from True have a: "a = env t" and en: "isEnabled t" by simp_all
      from nf have "mapSet (nextTimer w) (nextPromise w) (queue (closures w a)) =
           queue (closures w a) @ [(nextTimer w, nextPromise w)]"
        by (rule mapSet_fresh)
      with en have "queue (closures (snd (throttled t args now w)) a) =
           queue (closures w a) @ [(nextTimer w, nextPromise w)]"
        unfolding a by (simp add: throttled_closure getDelay_config)
      moreover from en have "nextTimer (snd (throttled t args now w)) = Suc (nextTimer w)"
        by (simp add: throttled_counters)
      ultimately show ?thesis using old nf by (auto simp: less_Suc_eq)
    next
      case False
      then have "closures (snd (throttled t args now w)) a = closures w a"
        by (auto simp: throttled_closure)
      moreover have "nextTimer w \<le> nextTimer (snd (throttled t args now w))"
        by (simp add: throttled_counters)
      ultimately show ?thesis using old by fastforce
    qed
  qed
next
  case (reach_execute w h)
  show ?case unfolding queueKeysFresh_def
  proof (intro allI)
    fix a
    from reach_execute.IH
    have old: "\<forall>e \<in> set (queue (closures w a)). fst e < nextTimer w"
      "distinct (map fst (queue (closures w a)))"
      by (simp_all add: queueKeysFresh_def)
    with execute_closure[of h w a] mapDelete_keys[of h "queue (closures w a)"]
    show "(\<forall>e \<in> set (queue (closures (execute h w) a)). fst e < nextTimer (execute h w)) \<and>
          distinct (map fst (queue (closures (execute h w) a)))"
      by (auto simp: execute_counters)
  qed
next
  case (reach_abort w t)
  then show ?case
    by (simp add: queueKeysFresh_def abort_def Let_def foldl_abortEntry_frame)
qed

text \<open>
  Where C7 holds: in a reachable world an enabled call adds exactly one entry, and a
  timer that fires removes exactly one as long as the callee does not throw.
\<close>

lemma queueSize_enabled_call:
  assumes "reachable w" "isEnabled t"
  shows "queueSize t (snd (throttled t args now w)) = Suc (queueSize t w)"
proof -
  from reachable_queueKeysFresh[OF assms(1)]
  have "\<forall>e \<in> set (queue (closures w (env t))). fst e < nextTimer w"
    unfolding queueKeysFresh_def by blast
  then have "nextTimer w \<notin> fst ` set (queue (closures w (env t)))"
    by auto
  with assms(2) show ?thesis
    by (simp add: queueSize_def throttled_closure getDelay_config mapSet_fresh)
qed

lemma queueSize_execute_returns:
  assumes "reachable w" "timers w h = Some e" "t_env e = env t"
    and "h \<in> fst ` set (queue (closures w (env t)))"
    and "\<forall>x. t_callee e (t_args e) \<noteq> Throws x"
  shows "Suc (queueSize t (execute h w)) = queueSize t w"
proof -
  from reachable_queueKeysFresh[OF assms(1)]
  have "distinct (map fst (queue (closures w (env t))))" by (simp add: queueKeysFresh_def)
  from mapDelete_length[OF this assms(4)] assms(2,3,5) show ?thesis
    by (simp add: queueSize_def execute_def Let_def split: outcome.splits)
qed

text \<open>Where it fails: the callee throws when its timer fires.\<close>

lemma queueSize_execute_throws:
  assumes "timers w h = Some e" "t_callee e (t_args e) = Throws x"
  shows "queueSize t (execute h w) = queueSize t w \<and> promises (execute h w) = promises w \<and>
         timers (execute h w) h = None \<and> uncaught (execute h w) = uncaught w @ [x]"
  using assms by (simp add: queueSize_def execute_def Let_def)

text \<open>
  C7, at the input where the code departs from it. Two calls through an enabled wrapper
  whose callee throws: \<open>queueSize\<close> is 2 before any timer fires and still 2 after both
  timers have fired; the timers are gone, the promises are still pending and both
  exceptions are uncaught. With a callee that returns, the same run ends at 0.
\<close>

theorem queueSize_kept_by_throwing_callee:
  "queueSize (throttle 0 (\<lambda>args. Throws (7::int)))
     (calls (throttle 0 (\<lambda>args. Throws 7)) [1000, 1000] (fresh (Finite 5) (Finite 100) None)) = 2 \<and>
   queueSize (throttle 0 (\<lambda>args. Throws (7::int)))
     (execute 1 (execute 0
        (calls (throttle 0 (\<lambda>args. Throws 7)) [1000, 1000]
           (fresh (Finite 5) (Finite 100) None)))) = 2 \<and>
   timers (execute 1 (execute 0
        (calls (throttle 0 (\<lambda>args. Throws (7::int))) [1000, 1000]
           (fresh (Finite 5) (Finite 100) None)))) 0 = None \<and>
   timers (execute 1 (execute 0
        (calls (throttle 0 (\<lambda>args. Throws (7::int))) [1000, 1000]
           (fresh (Finite 5) (Finite 100) None)))) 1 = None \<and>
   promises (execute 1 (execute 0
        (calls (throttle 0 (\<lambda>args. Throws (7::int))) [1000, 1000]
           (fresh (Finite 5) (Finite 100) None)))) 0 = Some Pending \<and>
   uncaught (execute 1 (execute 0
        (calls (throttle 0 (\<lambda>args. Throws (7::int))) [1000, 1000]
           (fresh (Finite 5) (Finite 100) None)))) = [7, 7] \<and>
   queueSize (throttle 0 (\<lambda>args. Returns (7::int)))
     (execute 1 (execute 0
        (calls (throttle 0 (\<lambda>args. Returns 7)) [1000, 1000]
           (fresh (Finite 5) (Finite 100) None)))) = 0"
  by (simp add: ev)

section \<open>Which wrappers share state\<close>

lemma pThrottle_address:
  "pThrottle l i s w = Inr (a, w') \<Longrightarrow> a = nextClosure w \<and> nextClosure w' = Suc a"
  by (auto simp: pThrottle_def split: if_splits)

lemma constructions_distinct:
  assumes "pThrottle l i s w = Inr (a, w1)" and "nextClosure w1 \<le> nextClosure w2"
    and "pThrottle l' i' s' w2 = Inr (b, w3)"
  shows "a \<noteq> b"
  using pThrottle_address[OF assms(1)] pThrottle_address[OF assms(3)] assms(2) by simp

text \<open>
  Two wrappers made by the function that one \<open>pThrottle\<close> call returned hold the same
  closure: a call through the first makes \<open>queueSize\<close> of the second 1 and changes the
  delay the second would get from 0 to 100 (limit 1, interval 100).
\<close>

theorem shared_closure_counterexample:
  "queueSize (throttle 0 (\<lambda>args. Returns (2::int))) (fresh (Finite 1) (Finite 100) None) = 0 \<and>
   queueSize (throttle 0 (\<lambda>args. Returns (2::int)))
     (snd (throttled (throttle 0 (\<lambda>args. Returns 1)) [] 1000
        (fresh (Finite 1) (Finite 100) None))) = 1 \<and>
   fst (getDelay 1000 (closures (fresh (Finite 1) (Finite 100) None :: int world) 0)) = Some 0 \<and>
   fst (getDelay 1000 (closures
     (snd (throttled (throttle 0 (\<lambda>args. Returns (1::int))) [] 1000
        (fresh (Finite 1) (Finite 100) None))) 0)) = Some 100"
  by (simp add: ev)

lemma mapSet_members:
  "e \<in> set (mapSet k v q) \<Longrightarrow> e \<in> set q \<or> e = (k, v)"
  by (auto simp: mapSet_def split: if_splits)

lemma mapSet_keeps:
  "(h, r) \<in> set q \<Longrightarrow> h \<noteq> k \<Longrightarrow> (h, r) \<in> set (mapSet k v q)"
  by (force simp: mapSet_def)

lemma mapSet_has: "(k, v) \<in> set (mapSet k v q)"
  by (force simp: mapSet_def)

lemma queue_throttled:
  assumes "e \<in> set (queue (closures (snd (throttled t args now w)) a))"
  shows "e \<in> set (queue (closures w a)) \<or>
         (isEnabled t \<and> a = env t \<and> e = (nextTimer w, nextPromise w))"
proof (cases "isEnabled t \<and> a = env t")
  case True
  with assms have "e \<in> set (mapSet (nextTimer w) (nextPromise w) (queue (closures w a)))"
    by (simp add: throttled_closure getDelay_config)
  from mapSet_members[OF this] True show ?thesis by blast
next
  case False
  then have "closures (snd (throttled t args now w)) a = closures w a"
    by (auto simp: throttled_closure)
  with assms show ?thesis by simp
qed

lemma queue_execute:
  "e \<in> set (queue (closures (execute h w) a)) \<Longrightarrow> e \<in> set (queue (closures w a))"
  using execute_closure[of h w a] mapDelete_keys[of h "queue (closures w a)"] by auto

lemma queue_abort:
  "e \<in> set (queue (closures (abort t w) a)) \<Longrightarrow> e \<in> set (queue (closures w a)) \<and> a \<noteq> env t"
  by (cases "a = env t") (simp_all add: abort_def Let_def foldl_abortEntry_frame)

lemma queue_pThrottle:
  "pThrottle l i s w = Inr (a', w') \<Longrightarrow> e \<in> set (queue (closures w' a)) \<Longrightarrow>
   e \<in> set (queue (closures w a)) \<and> a \<noteq> a'"
  by (cases "a = a'") (auto simp: pThrottle_def newClosure_def split: if_splits)

lemma throttled_ids:
  "nextTimer w \<le> nextTimer (snd (throttled t args now w)) \<and>
   nextPromise (snd (throttled t args now w)) = Suc (nextPromise w) \<and>
   (isEnabled t \<longrightarrow> nextTimer (snd (throttled t args now w)) = Suc (nextTimer w))"
  by (simp add: throttled_def Let_def case_prod_beta)

lemma execute_ids:
  "nextTimer (execute h w) = nextTimer w \<and> nextPromise (execute h w) = nextPromise w \<and>
   nextClosure (execute h w) = nextClosure w"
  by (simp add: execute_def Let_def split: option.splits outcome.splits)

lemma abort_ids:
  "nextTimer (abort t w) = nextTimer w \<and> nextPromise (abort t w) = nextPromise w \<and>
   nextClosure (abort t w) = nextClosure w"
  by (simp add: abort_def Let_def foldl_abortEntry_frame)

lemma pThrottle_ids:
  "pThrottle l i s w = Inr (a, w') \<Longrightarrow>
   nextTimer w' = nextTimer w \<and> nextPromise w' = nextPromise w \<and> timers w' = timers w \<and>
   promises w' = promises w"
  by (auto simp: pThrottle_def split: if_splits)

lemma reachable_ids_fresh:
  "reachable w \<Longrightarrow> e \<in> set (queue (closures w a)) \<Longrightarrow>
   fst e < nextTimer w \<and> snd e < nextPromise w"
proof (induction arbitrary: a e rule: reachable.induct)
  case reach_init
  then show ?case by (simp add: emptyWorld_def newClosure_def)
next
  case (reach_pThrottle w l i s a' w')
  from queue_pThrottle[OF reach_pThrottle.hyps(2) reach_pThrottle.prems]
  have "e \<in> set (queue (closures w a))" by simp
  from reach_pThrottle.IH[OF this] pThrottle_ids[OF reach_pThrottle.hyps(2)]
  show ?case by simp
next
  case (reach_throttled w t args now)
  from queue_throttled[OF reach_throttled.prems] show ?case
  proof
    assume "e \<in> set (queue (closures w a))"
    from reach_throttled.IH[OF this] throttled_ids[of w t args now] show ?thesis by simp
  next
    assume "isEnabled t \<and> a = env t \<and> e = (nextTimer w, nextPromise w)"
    with throttled_ids[of w t args now] show ?thesis by simp
  qed
next
  case (reach_execute w h)
  from reach_execute.IH[OF queue_execute[OF reach_execute.prems]] show ?case
    by (simp add: execute_ids)
next
  case (reach_abort w t)
  from queue_abort[OF reach_abort.prems] have "e \<in> set (queue (closures w a))" by simp
  from reach_abort.IH[OF this] show ?case by (simp add: abort_ids)
qed

lemma reachable_unallocated_empty:
  "reachable w \<Longrightarrow> nextClosure w \<le> a \<Longrightarrow> queue (closures w a) = []"
proof (induction arbitrary: a rule: reachable.induct)
  case reach_init
  then show ?case by (simp add: emptyWorld_def newClosure_def)
next
  case (reach_pThrottle w l i s a' w')
  from pThrottle_address[OF reach_pThrottle.hyps(2)] reach_pThrottle.prems
  have a: "nextClosure w \<le> a" "a \<noteq> a'" by simp_all
  have "e \<notin> set (queue (closures w' a))" for e
    using queue_pThrottle[OF reach_pThrottle.hyps(2), of e a] reach_pThrottle.IH[OF a(1)] by auto
  then show ?case by (cases "queue (closures w' a)") auto
next
  case (reach_throttled w t args now)
  from reach_throttled.prems have a: "nextClosure w \<le> a" by (simp add: throttled_counters)
  with reach_throttled.hyps(2) have "a \<noteq> env t" by simp
  then have "closures (snd (throttled t args now w)) a = closures w a"
    by (simp add: throttled_closure)
  with reach_throttled.IH[OF a] show ?case by simp
next
  case (reach_execute w h)
  from reach_execute.prems have a: "nextClosure w \<le> a" by (simp add: execute_ids)
  have "e \<notin> set (queue (closures (execute h w) a))" for e
    using queue_execute[of e h w a] reach_execute.IH[OF a] by auto
  then show ?case by (cases "queue (closures (execute h w) a)") auto
next
  case (reach_abort w t)
  from reach_abort.prems have a: "nextClosure w \<le> a" by (simp add: abort_ids)
  have "e \<notin> set (queue (closures (abort t w) a))" for e
    using queue_abort[of e t w a] reach_abort.IH[OF a] by auto
  then show ?case by (cases "queue (closures (abort t w) a)") auto
qed

lemma reachable_queues_disjoint:
  "reachable w \<Longrightarrow> e \<in> set (queue (closures w a)) \<Longrightarrow> e' \<in> set (queue (closures w b)) \<Longrightarrow>
   fst e = fst e' \<or> snd e = snd e' \<Longrightarrow> a = b"
proof (induction arbitrary: a b e e' rule: reachable.induct)
  case reach_init
  then show ?case by (simp add: emptyWorld_def newClosure_def)
next
  case (reach_pThrottle w l i s a' w')
  from queue_pThrottle[OF reach_pThrottle.hyps(2) reach_pThrottle.prems(1)]
    queue_pThrottle[OF reach_pThrottle.hyps(2) reach_pThrottle.prems(2)]
  have "e \<in> set (queue (closures w a))" "e' \<in> set (queue (closures w b))" by simp_all
  from reach_pThrottle.IH[OF this reach_pThrottle.prems(3)] show ?case .
next
  case (reach_throttled w t args now)
  note new = queue_throttled[OF reach_throttled.prems(1)] queue_throttled[OF reach_throttled.prems(2)]
  note fr = reachable_ids_fresh[OF reach_throttled.hyps(1)]
  from new(1) show ?case
  proof
    assume o: "e \<in> set (queue (closures w a))"
    from new(2) show ?thesis
    proof
      assume "e' \<in> set (queue (closures w b))"
      from reach_throttled.IH[OF o this reach_throttled.prems(3)] show ?thesis .
    next
      assume "isEnabled t \<and> b = env t \<and> e' = (nextTimer w, nextPromise w)"
      with fr[OF o] reach_throttled.prems(3) show ?thesis by auto
    qed
  next
    assume n: "isEnabled t \<and> a = env t \<and> e = (nextTimer w, nextPromise w)"
    from new(2) show ?thesis
    proof
      assume "e' \<in> set (queue (closures w b))"
      from fr[OF this] n reach_throttled.prems(3) show ?thesis by auto
    next
      assume "isEnabled t \<and> b = env t \<and> e' = (nextTimer w, nextPromise w)"
      with n show ?thesis by simp
    qed
  qed
next
  case (reach_execute w h)
  from reach_execute.IH[OF queue_execute[OF reach_execute.prems(1)]
      queue_execute[OF reach_execute.prems(2)] reach_execute.prems(3)]
  show ?case .
next
  case (reach_abort w t)
  from queue_abort[OF reach_abort.prems(1)] queue_abort[OF reach_abort.prems(2)]
  have "e \<in> set (queue (closures w a))" "e' \<in> set (queue (closures w b))" by simp_all
  from reach_abort.IH[OF this reach_abort.prems(3)] show ?case .
qed


lemma throttled_timers:
  "timers (snd (throttled t args now w)) h =
     (if isEnabled t \<and> h = nextTimer w
      then Some \<lparr>t_delay = fst (getDelay now (closures w (env t))), t_resolve = nextPromise w,
                 t_callee = callee t, t_args = args, t_env = env t\<rparr>
      else timers w h)"
  by (simp add: throttled_def Let_def case_prod_beta)

lemma throttled_promises:
  "p \<noteq> nextPromise w \<Longrightarrow> promises (snd (throttled t args now w)) p = promises w p"
  by (simp add: throttled_def Let_def case_prod_beta)

lemma execute_timers: "timers (execute h w) h' = (if h' = h then None else timers w h')"
  by (simp add: execute_def Let_def split: option.splits outcome.splits)

lemma execute_promises:
  "timers w h = Some x \<Longrightarrow> p \<noteq> t_resolve x \<Longrightarrow> promises (execute h w) p = promises w p"
  by (simp add: execute_def Let_def settle_def split: option.splits outcome.splits promise.splits)

lemma mapDelete_keeps: "(h, r) \<in> set q \<Longrightarrow> h \<noteq> k \<Longrightarrow> (h, r) \<in> set (mapDelete k q)"
  by (simp add: mapDelete_def)

lemma reachable_timers_queued:
  "reachable w \<Longrightarrow> timers w h = Some x \<Longrightarrow>
   (h, t_resolve x) \<in> set (queue (closures w (t_env x)))"
proof (induction arbitrary: h x rule: reachable.induct)
  case reach_init
  then show ?case by (simp add: emptyWorld_def)
next
  case (reach_pThrottle w l i s a' w')
  from reach_pThrottle.prems pThrottle_ids[OF reach_pThrottle.hyps(2)]
  have "timers w h = Some x" by simp
  from reach_pThrottle.IH[OF this] have q: "(h, t_resolve x) \<in> set (queue (closures w (t_env x)))" .
  have "t_env x \<noteq> a'"
  proof
    assume "t_env x = a'"
    with pThrottle_address[OF reach_pThrottle.hyps(2)] have "nextClosure w \<le> t_env x" by simp
    from reachable_unallocated_empty[OF reach_pThrottle.hyps(1) this] q show False by simp
  qed
  with reach_pThrottle.hyps(2) have "closures w' (t_env x) = closures w (t_env x)"
    by (auto simp: pThrottle_def split: if_splits)
  with q show ?case by simp
next
  case (reach_throttled w t args now)
  show ?case
  proof (cases "isEnabled t \<and> h = nextTimer w")
    case True
    with reach_throttled.prems have x: "t_resolve x = nextPromise w" "t_env x = env t"
      by (auto simp: throttled_timers)
    from True show ?thesis
      by (simp add: x throttled_closure mapSet_has)
  next
    case False
    with reach_throttled.prems have "timers w h = Some x"
      by (auto simp: throttled_timers)
    from reach_throttled.IH[OF this]
    have q: "(h, t_resolve x) \<in> set (queue (closures w (t_env x)))" .
    show ?thesis
    proof (cases "isEnabled t \<and> t_env x = env t")
      case True
      from reachable_ids_fresh[OF reach_throttled.hyps(1) q] have "h \<noteq> nextTimer w" by simp
      from mapSet_keeps[OF q this] True show ?thesis
        by (simp add: throttled_closure getDelay_config)
    next
      case False
      then have "closures (snd (throttled t args now w)) (t_env x) = closures w (t_env x)"
        by (auto simp: throttled_closure)
      with q show ?thesis by simp
    qed
  qed
next
  case (reach_execute w k)
  from reach_execute.prems have hk: "h \<noteq> k" and old: "timers w h = Some x"
    by (auto simp: execute_timers split: if_splits)
  from reach_execute.IH[OF old]
  have q: "(h, t_resolve x) \<in> set (queue (closures w (t_env x)))" .
  from execute_closure[of k w "t_env x"] q mapDelete_keeps[OF q hk] show ?case by auto
next
  case (reach_abort w t)
  from reach_abort.prems
  have nk: "h \<notin> fst ` set (queue (closures w (env t)))" and old: "timers w h = Some x"
    by (auto simp: abort_def Let_def foldl_abortEntry_timers split: if_splits)
  from reach_abort.IH[OF old]
  have q: "(h, t_resolve x) \<in> set (queue (closures w (t_env x)))" .
  with nk have "t_env x \<noteq> env t" by force
  then have "closures (abort t w) (t_env x) = closures w (t_env x)"
    by (simp add: abort_def Let_def foldl_abortEntry_frame)
  with q show ?case by simp
qed

lemma reachable_construct: "reachable w \<Longrightarrow> reachable (construct l i s w)"
proof (cases "pThrottle l i s w")
  case (Inl e)
  assume "reachable w"
  with Inl show ?thesis by (simp add: construct_def)
next
  case (Inr r)
  assume r: "reachable w"
  obtain a w' where "r = (a, w')" by (cases r)
  with reach_pThrottle[OF r, of l i s a w'] Inr show ?thesis by (simp add: construct_def)
qed

text \<open>
  C9 (as amended). The throttling state belongs to one \<open>pThrottle\<close> call, not to one
  wrapper. In a reachable world, for wrappers over different closures (two \<open>pThrottle\<close>
  calls always give different ones, \<open>constructions_distinct\<close>), a call or an abort
  through the first, or the firing of a timer the first set, leaves the second's closure
  as it was (the same delay computation, the same \<open>queueSize\<close>, the same entries for
  its \<open>abort()\<close>), and leaves the timer and the promise of every call pending in the
  second's queue as they were; an \<open>abort()\<close> through the second then does to them
  what it would have done before.
\<close>

theorem separate_closures_independent:
  assumes "reachable w" and "env t1 \<noteq> env t2"
  shows "closures (snd (throttled t1 args now w)) (env t2) = closures w (env t2) \<and>
         closures (abort t1 w) (env t2) = closures w (env t2) \<and>
         (\<forall>x. timers w h = Some x \<and> t_env x = env t1 \<longrightarrow>
            closures (execute h w) (env t2) = closures w (env t2)) \<and>
         queueSize t2 (snd (throttled t1 args now w)) = queueSize t2 w \<and>
         queueSize t2 (abort t1 w) = queueSize t2 w \<and>
         getDelay now' (closures (snd (throttled t1 args now w)) (env t2)) =
           getDelay now' (closures w (env t2)) \<and>
         getDelay now' (closures (abort t1 w) (env t2)) = getDelay now' (closures w (env t2)) \<and>
         closures (abort t2 (snd (throttled t1 args now w))) (env t2) =
           closures (abort t2 w) (env t2) \<and>
         (\<forall>e \<in> set (queue (closures w (env t2))).
            timers (snd (throttled t1 args now w)) (fst e) = timers w (fst e) \<and>
            promises (snd (throttled t1 args now w)) (snd e) = promises w (snd e) \<and>
            timers (abort t1 w) (fst e) = timers w (fst e) \<and>
            promises (abort t1 w) (snd e) = promises w (snd e) \<and>
            (\<forall>x. timers w h = Some x \<and> t_env x = env t1 \<longrightarrow>
               timers (execute h w) (fst e) = timers w (fst e) \<and>
               promises (execute h w) (snd e) = promises w (snd e)) \<and>
            timers (abort t2 (snd (throttled t1 args now w))) (fst e) =
              timers (abort t2 w) (fst e) \<and>
            promises (abort t2 (snd (throttled t1 args now w))) (snd e) =
              promises (abort t2 w) (snd e))"
proof -
  let ?w' = "snd (throttled t1 args now w)"
  have c: "closures ?w' (env t2) = closures w (env t2)"
    using assms(2) by (auto simp: throttled_closure)
  have a: "closures (abort t1 w) (env t2) = closures w (env t2)"
    using assms(2) by (simp add: abort_def Let_def foldl_abortEntry_frame)
  have x: "\<forall>x. timers w h = Some x \<and> t_env x = env t1 \<longrightarrow>
            closures (execute h w) (env t2) = closures w (env t2)"
    using assms(2) by (auto simp: execute_def Let_def split: outcome.splits)
  have b: "closures (abort t2 ?w') (env t2) = closures (abort t2 w) (env t2)"
    by (simp add: abort_def Let_def foldl_abortEntry_frame c)
  have frame: "timers ?w' (fst e) = timers w (fst e) \<and>
            promises ?w' (snd e) = promises w (snd e) \<and>
            timers (abort t1 w) (fst e) = timers w (fst e) \<and>
            promises (abort t1 w) (snd e) = promises w (snd e) \<and>
            (\<forall>x. timers w h = Some x \<and> t_env x = env t1 \<longrightarrow>
               timers (execute h w) (fst e) = timers w (fst e) \<and>
               promises (execute h w) (snd e) = promises w (snd e)) \<and>
            timers (abort t2 ?w') (fst e) = timers (abort t2 w) (fst e) \<and>
            promises (abort t2 ?w') (snd e) = promises (abort t2 w) (snd e)"
    if e: "e \<in> set (queue (closures w (env t2)))" for e
  proof -
    from reachable_ids_fresh[OF assms(1) e]
    have fr: "fst e \<noteq> nextTimer w" "snd e \<noteq> nextPromise w" by simp_all
    have f1: "timers ?w' (fst e) = timers w (fst e)"
      using fr(1) by (simp add: throttled_timers)
    have f2: "promises ?w' (snd e) = promises w (snd e)"
      using fr(2) by (rule throttled_promises)
    have apart: "fst e' \<noteq> fst e \<and> snd e' \<noteq> snd e"
      if "e' \<in> set (queue (closures w (env t1)))" for e'
      using reachable_queues_disjoint[OF assms(1) that e] assms(2) by auto
    then have nk: "fst e \<notin> fst ` set (queue (closures w (env t1)))"
      and np: "snd e \<notin> snd ` set (queue (closures w (env t1)))"
      by force+
    have f3: "timers (abort t1 w) (fst e) = timers w (fst e)"
      using nk by (simp add: abort_def Let_def foldl_abortEntry_timers)
    have f4: "promises (abort t1 w) (snd e) = promises w (snd e)"
      using np by (simp add: abort_def Let_def foldl_abortEntry_promises)
    have f5: "timers (execute h w) (fst e) = timers w (fst e) \<and>
              promises (execute h w) (snd e) = promises w (snd e)"
      if t: "timers w h = Some x" "t_env x = env t1" for x
    proof -
      from reachable_timers_queued[OF assms(1) t(1)] t(2)
      have "(h, t_resolve x) \<in> set (queue (closures w (env t1)))" by simp
      from apart[OF this] have "fst e \<noteq> h" "snd e \<noteq> t_resolve x" by auto
      with execute_promises[OF t(1)] show ?thesis by (simp add: execute_timers)
    qed
    have in': "e \<in> set (queue (closures ?w' (env t2)))" using e c by simp
    have f6: "timers (abort t2 ?w') (fst e) = timers (abort t2 w) (fst e)"
      using e in' by (simp add: abort_def Let_def foldl_abortEntry_timers)
    have f7: "promises (abort t2 ?w') (snd e) = promises (abort t2 w) (snd e)"
      using e in' f2 by (simp add: abort_def Let_def foldl_abortEntry_promises)
    from f1 f2 f3 f4 f5 f6 f7 show ?thesis by blast
  qed
  from c a x b have "closures ?w' (env t2) = closures w (env t2) \<and>
         closures (abort t1 w) (env t2) = closures w (env t2) \<and>
         (\<forall>x. timers w h = Some x \<and> t_env x = env t1 \<longrightarrow>
            closures (execute h w) (env t2) = closures w (env t2)) \<and>
         queueSize t2 ?w' = queueSize t2 w \<and>
         queueSize t2 (abort t1 w) = queueSize t2 w \<and>
         getDelay now' (closures ?w' (env t2)) = getDelay now' (closures w (env t2)) \<and>
         getDelay now' (closures (abort t1 w) (env t2)) = getDelay now' (closures w (env t2)) \<and>
         closures (abort t2 ?w') (env t2) = closures (abort t2 w) (env t2)"
    by (simp add: queueSize_def)
  with frame show ?thesis by blast
qed


theorem separate_closures_independent_witness:
  "env (throttle 0 (\<lambda>args. Returns (1::int))) \<noteq> env (throttle 1 (\<lambda>args. Returns (2::int))) \<and>
   reachable (calls (throttle 1 (\<lambda>args. Returns (2::int))) [1000, 1000]
     (construct (Finite 1) (Finite 100) None (fresh (Finite 1) (Finite 100) None))) \<and>
   queue (closures (calls (throttle 1 (\<lambda>args. Returns (2::int))) [1000, 1000]
     (construct (Finite 1) (Finite 100) None (fresh (Finite 1) (Finite 100) None))) 1) =
     [(0, 0), (1, 1)] \<and>
   timers (snd (throttled (throttle 0 (\<lambda>args. Returns (1::int))) [] 1000
     (calls (throttle 1 (\<lambda>args. Returns (2::int))) [1000, 1000]
       (construct (Finite 1) (Finite 100) None (fresh (Finite 1) (Finite 100) None))))) 1 =
   timers (calls (throttle 1 (\<lambda>args. Returns (2::int))) [1000, 1000]
       (construct (Finite 1) (Finite 100) None (fresh (Finite 1) (Finite 100) None))) 1 \<and>
   timers (abort (throttle 0 (\<lambda>args. Returns (1::int)))
     (calls (throttle 1 (\<lambda>args. Returns (2::int))) [1000, 1000]
       (construct (Finite 1) (Finite 100) None (fresh (Finite 1) (Finite 100) None)))) 1 =
   timers (calls (throttle 1 (\<lambda>args. Returns (2::int))) [1000, 1000]
       (construct (Finite 1) (Finite 100) None (fresh (Finite 1) (Finite 100) None))) 1 \<and>
   promises (abort (throttle 0 (\<lambda>args. Returns (1::int)))
     (calls (throttle 1 (\<lambda>args. Returns (2::int))) [1000, 1000]
       (construct (Finite 1) (Finite 100) None (fresh (Finite 1) (Finite 100) None)))) 1 =
     Some Pending \<and>
   promises (abort (throttle 1 (\<lambda>args. Returns (2::int)))
     (snd (throttled (throttle 0 (\<lambda>args. Returns (1::int))) [] 1000
       (calls (throttle 1 (\<lambda>args. Returns (2::int))) [1000, 1000]
         (construct (Finite 1) (Finite 100) None (fresh (Finite 1) (Finite 100) None)))))) 1 =
     Some (Rejected AbortError) \<and>
   queueSize (throttle 1 (\<lambda>args. Returns (2::int)))
     (snd (throttled (throttle 0 (\<lambda>args. Returns (1::int))) [] 1000
       (calls (throttle 1 (\<lambda>args. Returns (2::int))) [1000, 1000]
         (construct (Finite 1) (Finite 100) None (fresh (Finite 1) (Finite 100) None))))) = 2 \<and>
   queueSize (throttle 0 (\<lambda>args. Returns (1::int)))
     (snd (throttled (throttle 0 (\<lambda>args. Returns (1::int))) [] 1000
       (calls (throttle 1 (\<lambda>args. Returns (2::int))) [1000, 1000]
         (construct (Finite 1) (Finite 100) None (fresh (Finite 1) (Finite 100) None))))) = 1"
proof -
  let ?first = "throttle 0 (\<lambda>args. Returns (1::int))"
  let ?second = "throttle 1 (\<lambda>args. Returns (2::int))"
  let ?u = "construct (Finite 1) (Finite 100) None (fresh (Finite 1) (Finite 100) None) :: int world"
  let ?w = "calls ?second [1000, 1000] ?u"
  let ?v = "snd (throttled ?first [] 1000 ?w)"
  have d: "env ?first \<noteq> env ?second" by (simp add: throttle_def)
  have r: "reachable ?w"
    by (intro reachable_calls reachable_construct reachable_fresh) (simp add: ev)
  have q: "queue (closures ?w 1) = [(0, 0), (1, 1)]" "queueSize ?second ?w = 2"
    "queueSize ?first ?v = 1" "promises ?w 1 = Some Pending"
    "promises (abort ?second ?w) 1 = Some (Rejected AbortError)"
    by (simp_all add: ev)
  have m: "(1, 1) \<in> set (queue (closures ?w (env ?second)))"
    by (simp add: ev)
  have s: "snd (1::nat, 1::nat) = 1" "fst (1::nat, 1::nat) = 1" by simp_all
  note th = separate_closures_independent[OF r d, of "[]" 1000 0 1000]
  from th have f: "\<forall>e \<in> set (queue (closures ?w (env ?second))).
      timers ?v (fst e) = timers ?w (fst e) \<and>
      timers (abort ?first ?w) (fst e) = timers ?w (fst e) \<and>
      promises (abort ?first ?w) (snd e) = promises ?w (snd e) \<and>
      promises (abort ?second ?v) (snd e) = promises (abort ?second ?w) (snd e)"
    by blast
  from bspec[OF f m] have g: "timers ?v 1 = timers ?w 1"
    "timers (abort ?first ?w) 1 = timers ?w 1"
    "promises (abort ?first ?w) 1 = promises ?w 1"
    "promises (abort ?second ?v) 1 = promises (abort ?second ?w) 1"
    by (simp_all only: s)
  from th have z: "queueSize ?second ?v = queueSize ?second ?w" by blast
  from d r q(1) g(1,2) g(3)[unfolded q(4)] g(4)[unfolded q(5)] z[unfolded q(2)] q(3)
  show ?thesis by blast
qed

end
